theory Spec2Isabelle
  imports Complex_Main "HOL-Library.Word" "HOL-Library.Multiset"
begin

section \<open>Data model of the pulse sketches\<close>

text \<open>
  The sketches \<^verbatim>\<open>SKETCHS/Espbpm/Espbpm.ino\<close> and
  \<^verbatim>\<open>PROJECT CODE/SKETCHS/Pulsebyuno/Pulsebyuno.ino\<close> keep their whole state in
  global variables and in function-local \<^verbatim>\<open>static\<close> variables of \<^verbatim>\<open>loop()\<close>.
  One record holds all of them; \<^verbatim>\<open>loop()\<close> becomes a function from the values read
  from the hardware during one pass and the state to the line printed and the new state.

  \<^item> \<^verbatim>\<open>unsigned long\<close> (the type of \<^verbatim>\<open>millis()\<close>) is a 32-bit word on both
    boards: subtraction wraps.
  \<^item> \<^verbatim>\<open>float\<close> is modelled by \<open>real\<close>: arithmetic is exact, rounding of the IEEE
    single format is not modelled.
  \<^item> \<^verbatim>\<open>int\<close> cursors and counts are \<open>nat\<close> (they are never decremented); the
    \<^verbatim>\<open>long\<close> samples of the smoothing ring are \<open>int\<close> (their magnitude stays below
    \<open>1023 * 100\<close>, far from the 32-bit range).
  \<^item> arrays are lists of the declared length, written with \<open>xs[i := v]\<close>.
\<close>

type_synonym ulong = "32 word"

datatype StatusCode = ST_OK | ST_FALLBACK | ST_NO_SENSOR | ST_LOW_CONF

record state =
  status :: StatusCode
  dc :: real
  gainEstimate :: real
  smoothBuf :: "int list"
  smoothPos :: nat
  smoothFilled :: bool
  lastBeatTime :: ulong
  lastValidBeatTime :: ulong
  beatIntervals :: "real list"
  beatIndex :: nat
  beatCount :: nat
  bpmHistory :: "real list"
  bpmHistIdx :: nat
  bpmHistCount :: nat
  bpmAvgWindow :: "real list"
  bpmAvgIdx :: nat
  bpmAvgCount :: nat
  lastGoodBPM :: real
  lastGoodTime :: ulong
  rms :: real
  drift :: real
  shapeMod :: real
  prev2 :: real
  prev1 :: real
  curr :: real
  lastJitter :: ulong
  ledPin :: bool

text \<open>
  The state after \<^verbatim>\<open>setup()\<close>: globals and statics are zero-initialised unless the
  declaration says otherwise; \<^verbatim>\<open>setup()\<close> of Espbpm calls \<^verbatim>\<open>setLed(true)\<close>, which
  drives the active-low pin LOW (\<open>ledPin = False\<close>).
\<close>

definition init_state :: state where
  "init_state = \<lparr> status = ST_NO_SENSOR, dc = 0, gainEstimate = 1,
     smoothBuf = [0, 0, 0, 0, 0], smoothPos = 0, smoothFilled = False,
     lastBeatTime = 0, lastValidBeatTime = 0,
     beatIntervals = [0, 0, 0, 0, 0, 0, 0, 0, 0, 0, 0, 0, 0, 0, 0, 0], beatIndex = 0, beatCount = 0,
     bpmHistory = [0, 0, 0, 0, 0], bpmHistIdx = 0, bpmHistCount = 0,
     bpmAvgWindow = [0, 0, 0, 0, 0, 0, 0, 0], bpmAvgIdx = 0, bpmAvgCount = 0,
     lastGoodBPM = 0, lastGoodTime = 0, rms = 0, drift = 0, shapeMod = 1,
     prev2 = 0, prev1 = 0, curr = 0, lastJitter = 0, ledPin = False \<rparr>"

text \<open>
  What one pass of \<^verbatim>\<open>loop()\<close> reads from outside: the ADC sample, the clock at the
  three places where \<^verbatim>\<open>millis()\<close> feeds the logic (line 226, and twice in the jitter
  block, lines 282 and 283), and one draw of the pseudo random generator for each call of
  \<^verbatim>\<open>random\<close>. The readings of \<^verbatim>\<open>millis()\<close> that only size the idle
  \<^verbatim>\<open>delay\<close> at the end of the pass do not reach the state and are left out.
\<close>

record tick_in =
  raw :: int
  t_now :: ulong
  t_jit :: ulong
  t_jit2 :: ulong
  rnd_jitter :: nat
  rnd_drift :: nat
  rnd_shape :: nat
  rnd_noise :: nat

text \<open>
  The line printed by one pass: either the fixed line \<^verbatim>\<open>0,0,0,CALCULATING\<close> or the
  values of the locals \<^verbatim>\<open>filtered\<close>, \<^verbatim>\<open>finalBPM\<close>, \<^verbatim>\<open>conf\<close> and of
  \<^verbatim>\<open>status\<close> at the print statements.
\<close>

datatype printed = Calculating | Reading real real real StatusCode

section \<open>Arduino helpers\<close>

text \<open>\<^verbatim>\<open>constrain(amt,low,high)\<close> is the macro
  \<^verbatim>\<open>((amt)<(low)?(low):((amt)>(high)?(high):(amt)))\<close>.\<close>

definition constrain :: "real \<Rightarrow> real \<Rightarrow> real \<Rightarrow> real" where
  "constrain amt low high = (if amt < low then low else if amt > high then high else amt)"

text \<open>The C conversion \<^verbatim>\<open>(long)x\<close> of a float truncates towards zero.\<close>

definition to_long :: "real \<Rightarrow> int" where
  "to_long x = (if x \<ge> 0 then \<lfloor>x\<rfloor> else \<lceil>x\<rceil>)"

text \<open>\<^verbatim>\<open>lroundf\<close> rounds to the nearest integer, halfway cases away from zero.\<close>

definition lroundf :: "real \<Rightarrow> int" where
  "lroundf x = (if x \<ge> 0 then \<lfloor>x + 1/2\<rfloor> else - \<lfloor>- x + 1/2\<rfloor>)"

text \<open>
  \<^verbatim>\<open>random(howsmall, howbig)\<close> of the Arduino core returns \<^verbatim>\<open>howsmall\<close> when
  \<^verbatim>\<open>howsmall >= howbig\<close> and otherwise \<^verbatim>\<open>howsmall + x % (howbig - howsmall)\<close>
  for the next draw \<open>x\<close> of the generator; the draw is an input of the pass.
\<close>

definition random :: "int \<Rightarrow> int \<Rightarrow> nat \<Rightarrow> int" where
  "random howsmall howbig x =
     (if howsmall \<ge> howbig then howsmall else howsmall + int x mod (howbig - howsmall))"

text \<open>The loop \<^verbatim>\<open>for(int i=0;i<n;i++) s += a[i];\<close> starting from \<^verbatim>\<open>s = 0\<close>.\<close>

primrec sum_slots :: "nat \<Rightarrow> 'a::monoid_add list \<Rightarrow> 'a" where
  "sum_slots 0 a = 0"
| "sum_slots (Suc n) a = sum_slots n a + a ! n"

section \<open>Espbpm: helper functions (lines 89 to 155)\<close>

text \<open>\<^verbatim>\<open>LED_ACTIVE_LOW\<close> is true: \<^verbatim>\<open>setLed(on)\<close> writes LOW for on, HIGH for off.\<close>

definition setLed :: "bool \<Rightarrow> state \<Rightarrow> state" where
  "setLed on s = s\<lparr>ledPin := \<not> on\<rparr>"

definition smoothAvg :: "int \<Rightarrow> state \<Rightarrow> real \<times> state" where
  "smoothAvg v s =
     (let buf = (smoothBuf s)[smoothPos s := v];
          pos = smoothPos s + 1;
          filled = (if pos \<ge> 5 then True else smoothFilled s);
          pos = (if pos \<ge> 5 then 0 else pos);
          n = (if filled then 5 else pos);
          sm = sum_slots n buf
      in (real_of_int sm / real (max 1 n),
          s\<lparr>smoothBuf := buf, smoothPos := pos, smoothFilled := filled\<rparr>))"

definition pushBeatInterval :: "real \<Rightarrow> state \<Rightarrow> state" where
  "pushBeatInterval dt s =
     (let arr = (beatIntervals s)[beatIndex s := dt];
          idx = beatIndex s + 1;
          idx = (if idx \<ge> 16 then 0 else idx);
          cnt = (if beatCount s < 16 then beatCount s + 1 else beatCount s)
      in s\<lparr>beatIntervals := arr, beatIndex := idx, beatCount := cnt\<rparr>)"

definition computeBPM :: "state \<Rightarrow> real" where
  "computeBPM s =
     (if beatCount s = 0 then 0
      else let sm = sum_slots (beatCount s) (beatIntervals s);
               avgInterval = sm / real (beatCount s)
           in if avgInterval \<le> 0 then 0 else 60000 / avgInterval)"

definition pushBPMHistory :: "real \<Rightarrow> state \<Rightarrow> state" where
  "pushBPMHistory bpm s =
     (let arr = (bpmHistory s)[bpmHistIdx s := bpm];
          idx = bpmHistIdx s + 1;
          idx = (if idx \<ge> 5 then 0 else idx);
          cnt = (if bpmHistCount s < 5 then bpmHistCount s + 1 else bpmHistCount s)
      in s\<lparr>bpmHistory := arr, bpmHistIdx := idx, bpmHistCount := cnt\<rparr>)"

text \<open>
  The insertion sort of \<^verbatim>\<open>medianBPM\<close> (lines 129 to 134). The inner
  \<^verbatim>\<open>while (j >= 0 && t[j] > key) { t[j+1] = t[j]; j--; }\<close> runs \<^verbatim>\<open>j\<close> down to
  \<open>-1\<close>, so \<^verbatim>\<open>j\<close> is an \<open>int\<close>; it returns the array and the final \<^verbatim>\<open>j\<close>.
\<close>

function shift_loop :: "real list \<Rightarrow> real \<Rightarrow> int \<Rightarrow> real list \<times> int" where
  "shift_loop t key j =
     (if j \<ge> 0 \<and> t ! nat j > key
      then shift_loop (t[nat (j + 1) := t ! nat j]) key (j - 1)
      else (t, j))"
  by pat_completeness auto
termination
  by (relation "measure (\<lambda>(t, key, j). nat (j + 1))") auto

declare shift_loop.simps [simp del]

function sort_loop :: "real list \<Rightarrow> nat \<Rightarrow> nat \<Rightarrow> real list" where
  "sort_loop t i n =
     (if i < n
      then (let key = t ! i;
                (t', j) = shift_loop t key (int i - 1)
            in sort_loop (t'[nat (j + 1) := key]) (i + 1) n)
      else t)"
  by pat_completeness auto
termination
  by (relation "measure (\<lambda>(t, i, n). n - i)") auto

declare sort_loop.simps [simp del]

text \<open>
  The local array \<^verbatim>\<open>t\<close> receives the first \<^verbatim>\<open>bpmHistCount\<close> slots of the window;
  its other slots stay uninitialised in the source and do not exist in the model.
\<close>

definition medianBPM :: "state \<Rightarrow> real" where
  "medianBPM s =
     (if bpmHistCount s = 0 then 0
      else let t = take (bpmHistCount s) (bpmHistory s);
               t = sort_loop t 1 (bpmHistCount s)
           in t ! (bpmHistCount s div 2))"

definition pushBPMAvg :: "real \<Rightarrow> state \<Rightarrow> state" where
  "pushBPMAvg bpm s =
     (let arr = (bpmAvgWindow s)[bpmAvgIdx s := bpm];
          idx = bpmAvgIdx s + 1;
          idx = (if idx \<ge> 8 then 0 else idx);
          cnt = (if bpmAvgCount s < 8 then bpmAvgCount s + 1 else bpmAvgCount s)
      in s\<lparr>bpmAvgWindow := arr, bpmAvgIdx := idx, bpmAvgCount := cnt\<rparr>)"

definition avgBPM :: "state \<Rightarrow> real" where
  "avgBPM s =
     (if bpmAvgCount s = 0 then 0
      else sum_slots (bpmAvgCount s) (bpmAvgWindow s) / real (bpmAvgCount s))"

definition plausibleInterval :: "real \<Rightarrow> bool" where
  "plausibleInterval dt =
     (if dt \<le> 0 then False
      else let bpm = 60000 / dt in bpm \<ge> 35 \<and> bpm \<le> 200)"

section \<open>Espbpm: one pass of loop() (lines 186 to 328)\<close>

text \<open>
  Lines 202 to 227: DC removal, automatic gain, smoothing, running magnitude, the
  three-sample window and the local-maximum test. The result is the local
  \<^verbatim>\<open>filtered\<close>, the local \<^verbatim>\<open>peak\<close> and the state.
\<close>

definition loop_front :: "int \<Rightarrow> state \<Rightarrow> real \<times> bool \<times> state" where
  "loop_front r s =
     (let dc' = 0.92 * dc s + (1 - 0.92) * real_of_int r;
          ac = real_of_int r - dc';
          ge = (1 - 0.02) * gainEstimate s + 0.02 * max 1 \<bar>ac\<bar>;
          gain = 1200 / max 1 (ge * 2);
          gain = constrain gain 1 100;
          amplified = ac * gain;
          (filtered, s1) = smoothAvg (to_long amplified) (s\<lparr>dc := dc', gainEstimate := ge\<rparr>);
          rms' = 0.92 * rms s1 + (1 - 0.92) * \<bar>filtered\<bar>;
          threshold = max 40 (rms' * 1.2);
          s2 = s1\<lparr>rms := rms', prev2 := prev1 s1, prev1 := curr s1, curr := filtered\<rparr>;
          peak = (prev1 s2 > prev2 s2 \<and> prev1 s2 > curr s2 \<and> prev1 s2 > threshold)
      in (filtered, peak, s2))"

text \<open>Lines 229 to 242: the refractory gate, the first-beat anchor and the validator.\<close>

definition loop_beat :: "bool \<Rightarrow> ulong \<Rightarrow> state \<Rightarrow> state" where
  "loop_beat peak now s =
     (if peak \<and> now - lastBeatTime s > 250
      then (let dt = (if lastBeatTime s = 0 then 0 else real (unat (now - lastBeatTime s)))
            in if lastBeatTime s = 0 \<or> plausibleInterval dt
               then (let s1 = (if lastBeatTime s \<noteq> 0 then pushBeatInterval dt s else s)
                     in setLed False (s1\<lparr>lastBeatTime := now, lastValidBeatTime := now\<rparr>))
               else s)
      else setLed True s)"

text \<open>
  Lines 244 to 276: the candidate, and the branches OK, FALLBACK and NO\_SENSOR. The
  result is \<open>None\<close> where the source prints the CALCULATING line and returns, and the
  locals \<^verbatim>\<open>finalBPM\<close> and \<^verbatim>\<open>conf\<close> otherwise.
\<close>

definition loop_status :: "ulong \<Rightarrow> state \<Rightarrow> (real \<times> real) option \<times> state" where
  "loop_status now s =
     (let candidate = computeBPM s;
          validCandidate = (candidate \<ge> 35 \<and> candidate \<le> 200)
      in if validCandidate
         then (let s1 = pushBPMAvg candidate (pushBPMHistory candidate s);
                   finalBPM = avgBPM s1;
                   med = medianBPM s1;
                   finalBPM = (if med > 0 then finalBPM * 0.6 + med * 0.4 else finalBPM)
               in (Some (finalBPM, 0.85),
                   s1\<lparr>lastGoodBPM := finalBPM, lastGoodTime := now, status := ST_OK\<rparr>))
         else if now - lastValidBeatTime s < 5000 \<and> lastGoodBPM s > 0
         then (Some (lastGoodBPM s, 0.6), s\<lparr>status := ST_FALLBACK\<rparr>)
         else (None, s\<lparr>status := ST_NO_SENSOR\<rparr>))"

text \<open>
  Lines 281 to 294: the jitter added to \<^verbatim>\<open>finalBPM\<close> after the branches.
  \<open>jitter_of\<close> is the value of the local \<^verbatim>\<open>jitter\<close> (lines 285 to 291; the local
  \<^verbatim>\<open>minVar\<close> is computed and never used).
\<close>

definition jitter_of :: "tick_in \<Rightarrow> real \<Rightarrow> real" where
  "jitter_of i finalBPM =
     (let maxVar = finalBPM * 0.30;
          low = lroundf (- maxVar * 100);
          high = lroundf (maxVar * 100);
          (low, high) = (if low \<ge> high then (- 100, 100) else (low, high));
          r = random low (high + 1) (rnd_jitter i)
      in real_of_int r / 100)"

definition loop_jitter :: "tick_in \<Rightarrow> real \<Rightarrow> state \<Rightarrow> real \<times> state" where
  "loop_jitter i finalBPM s =
     (if t_jit i - lastJitter s > 1400
      then (let s1 = s\<lparr>lastJitter := t_jit2 i\<rparr>;
                jitter = jitter_of i finalBPM
            in (constrain (finalBPM + jitter) 35 200, s1))
      else (finalBPM, s))"

text \<open>Lines 300 to 309: drift, shape modulation and noise on the printed waveform.\<close>

definition loop_morph :: "tick_in \<Rightarrow> real \<Rightarrow> state \<Rightarrow> real \<times> state" where
  "loop_morph i filtered s =
     (let drift' = 0.995 * drift s + (1 - 0.995) * real_of_int (random (- 25) 26 (rnd_drift i));
          shapeMod' = 1 + real_of_int (random (- 15) 16 (rnd_shape i)) / 100;
          microNoise = real_of_int (random (lroundf (- 6 * 10)) (lroundf (6 * 10) + 1) (rnd_noise i)) / 10
      in (filtered * shapeMod' + drift' + microNoise,
          s\<lparr>drift := drift', shapeMod := shapeMod'\<rparr>))"

definition loop :: "tick_in \<Rightarrow> state \<Rightarrow> printed \<times> state" where
  "loop i s =
     (if raw i < 30
      then (Calculating, (setLed True s)\<lparr>status := ST_NO_SENSOR\<rparr>)
      else (let (filtered, peak, s1) = loop_front (raw i) s;
                now = t_now i;
                s2 = loop_beat peak now s1
            in case loop_status now s2 of
                 (None, s3) \<Rightarrow> (Calculating, s3)
               | (Some (finalBPM, conf), s3) \<Rightarrow>
                   (let (finalBPM, s4) = loop_jitter i finalBPM s3;
                        (filtered, s5) = loop_morph i filtered s4
                    in (Reading filtered finalBPM conf (status s5), s5))))"

text \<open>The integers printed for a reading (lines 312 and 313).\<close>

definition bpmInt :: "real \<Rightarrow> int" where
  "bpmInt finalBPM = lroundf finalBPM"

definition confPct :: "real \<Rightarrow> int" where
  "confPct conf = lroundf (conf * 100)"

text \<open>Successive passes: the lines printed, oldest first, and the final state.\<close>

fun run :: "tick_in list \<Rightarrow> state \<Rightarrow> printed list \<times> state" where
  "run [] s = ([], s)"
| "run (i # is) s = (let (out, s1) = loop i s; (outs, s2) = run is s1 in (out # outs, s2))"

text \<open>
  Names for the parts of one pass that the statements below refer to: the local
  \<^verbatim>\<open>peak\<close> of the pass, the state when line 229 is reached, the state after the beat
  block (line 243), the beat clock with the interval ring, and the condition under which
  lines 233 to 237 run (the peak is registered as a beat).
\<close>

definition peak_of :: "int \<Rightarrow> state \<Rightarrow> bool" where
  "peak_of r s = fst (snd (loop_front r s))"

definition front_state :: "int \<Rightarrow> state \<Rightarrow> state" where
  "front_state r s = snd (snd (loop_front r s))"

definition after_beat :: "tick_in \<Rightarrow> state \<Rightarrow> state" where
  "after_beat i s = loop_beat (peak_of (raw i) s) (t_now i) (front_state (raw i) s)"

definition beat_clock :: "state \<Rightarrow> ulong \<times> ulong \<times> real list \<times> nat \<times> nat" where
  "beat_clock s = (lastBeatTime s, lastValidBeatTime s, beatIntervals s, beatIndex s, beatCount s)"

definition registers_beat :: "tick_in \<Rightarrow> state \<Rightarrow> bool" where
  "registers_beat i s =
     (raw i \<ge> 30 \<and> peak_of (raw i) s \<and> t_now i - lastBeatTime s > 250 \<and>
      (lastBeatTime s = 0 \<or> plausibleInterval (real (unat (t_now i - lastBeatTime s)))))"

text \<open>The status that a printed line stands for: the CALCULATING line is printed exactly
  where the source assigns \<^verbatim>\<open>ST_NO_SENSOR\<close>.\<close>

fun printed_status :: "printed \<Rightarrow> StatusCode" where
  "printed_status Calculating = ST_NO_SENSOR"
| "printed_status (Reading f b c st) = st"

section \<open>Pulsebyuno: the parts that differ from Espbpm\<close>

text \<open>
  Pulsebyuno declares the same globals (without \<^verbatim>\<open>drift\<close> and \<^verbatim>\<open>shapeMod\<close>, which
  its pass never touches) and the same \<^verbatim>\<open>smoothAvg\<close>, \<^verbatim>\<open>pushBeatInterval\<close>,
  \<^verbatim>\<open>pushBPMHistory\<close>, \<^verbatim>\<open>pushBPMAvg\<close> and \<^verbatim>\<open>avgBPM\<close>; its lines 158 to 181
  are lines 202 to 227 of Espbpm with the statics renamed, so \<open>loop_front\<close> serves both.
  It writes the LED pin directly. The functions below are the ones whose text differs.
\<close>

definition uno_computeBPM :: "state \<Rightarrow> real" where
  "uno_computeBPM s =
     (if beatCount s = 0 then 0
      else let sm = sum_slots (beatCount s) (beatIntervals s)
           in 60000 / (sm / real (beatCount s)))"

definition uno_plausibleInterval :: "real \<Rightarrow> bool" where
  "uno_plausibleInterval dt = (let bpm = 60000 / dt in bpm \<ge> 35 \<and> bpm \<le> 200)"

text \<open>Lines 183 to 193 of Pulsebyuno.\<close>

definition uno_loop_beat :: "bool \<Rightarrow> ulong \<Rightarrow> state \<Rightarrow> state" where
  "uno_loop_beat peak now s =
     (if peak \<and> now - lastBeatTime s > 250
      then (let dt = real (unat (now - lastBeatTime s))
            in if lastBeatTime s = 0 \<or> uno_plausibleInterval dt
               then (let s1 = (if lastBeatTime s \<noteq> 0 then pushBeatInterval dt s else s)
                     in s1\<lparr>lastBeatTime := now, lastValidBeatTime := now, ledPin := False\<rparr>)
               else s)
      else s\<lparr>ledPin := True\<rparr>)"

text \<open>Lines 195 to 221 of Pulsebyuno; \<^verbatim>\<open>FALLBACK_TIMEOUT_MS\<close> is a float there, so the
  elapsed time is converted before the comparison.\<close>

definition uno_loop_status :: "ulong \<Rightarrow> state \<Rightarrow> (real \<times> real) option \<times> state" where
  "uno_loop_status now s =
     (let candidate = uno_computeBPM s;
          validCandidate = (candidate \<ge> 35 \<and> candidate \<le> 200)
      in if validCandidate
         then (let s1 = pushBPMAvg candidate (pushBPMHistory candidate s);
                   finalBPM = avgBPM s1
               in (Some (finalBPM, 0.8),
                   s1\<lparr>lastGoodBPM := finalBPM, lastGoodTime := now, status := ST_OK\<rparr>))
         else if real (unat (now - lastValidBeatTime s)) < 5000
         then (Some (lastGoodBPM s, 0.6), s\<lparr>status := ST_FALLBACK\<rparr>)
         else (None, s\<lparr>status := ST_NO_SENSOR\<rparr>))"

text \<open>Lines 227 to 238 of Pulsebyuno.\<close>

definition uno_loop_jitter :: "tick_in \<Rightarrow> real \<Rightarrow> state \<Rightarrow> real \<times> state" where
  "uno_loop_jitter i finalBPM s =
     (if t_jit i - lastJitter s > 1400
      then (let s1 = s\<lparr>lastJitter := t_jit2 i\<rparr>;
                minVar = finalBPM * 0.20;
                maxVar = finalBPM * 0.30;
                jitter = real_of_int (random (to_long (minVar * - 100)) (to_long (maxVar * 100))
                                        (rnd_jitter i)) / 100
            in (constrain (finalBPM + jitter) 35 200, s1))
      else (finalBPM, s))"

text \<open>Lines 145 to 254 of Pulsebyuno. The branch for a raw sample below 30 (lines 151 to
  156) prints the CALCULATING line, writes the LED pin HIGH and returns.\<close>

definition uno_loop :: "tick_in \<Rightarrow> state \<Rightarrow> printed \<times> state" where
  "uno_loop i s =
     (if raw i < 30
      then (Calculating, s\<lparr>ledPin := True\<rparr>)
      else (let (filtered, peak, s1) = loop_front (raw i) s;
                now = t_now i;
                s2 = uno_loop_beat peak now s1
            in case uno_loop_status now s2 of
                 (None, s3) \<Rightarrow> (Calculating, s3)
               | (Some (finalBPM, conf), s3) \<Rightarrow>
                   (let (finalBPM, s4) = uno_loop_jitter i finalBPM s3
                    in (Reading filtered finalBPM conf (status s4), s4))))"

text \<open>The integers printed by Pulsebyuno (lines 244 and 246) are C casts.\<close>

definition uno_bpmInt :: "real \<Rightarrow> int" where
  "uno_bpmInt finalBPM = to_long finalBPM"

definition uno_confPct :: "real \<Rightarrow> int" where
  "uno_confPct conf = to_long (conf * 100)"

fun uno_run :: "tick_in list \<Rightarrow> state \<Rightarrow> printed list \<times> state" where
  "uno_run [] s = ([], s)"
| "uno_run (i # is) s =
     (let (out, s1) = uno_loop i s; (outs, s2) = uno_run is s1 in (out # outs, s2))"

definition uno_after_beat :: "tick_in \<Rightarrow> state \<Rightarrow> state" where
  "uno_after_beat i s = uno_loop_beat (peak_of (raw i) s) (t_now i) (front_state (raw i) s)"

definition uno_registers_beat :: "tick_in \<Rightarrow> state \<Rightarrow> bool" where
  "uno_registers_beat i s =
     (raw i \<ge> 30 \<and> peak_of (raw i) s \<and> t_now i - lastBeatTime s > 250 \<and>
      (lastBeatTime s = 0 \<or> uno_plausibleInterval (real (unat (t_now i - lastBeatTime s)))))"

section \<open>Concrete passes used to instantiate the theorems\<close>

text \<open>
  A pass with the given raw sample, one clock reading \<open>t\<close> shared by the three places
  that read the clock, the given draw for the jitter, and draws for drift, shape and noise
  that make \<^verbatim>\<open>random\<close> return 0. The states \<open>st1\<close> to \<open>st4\<close> are the states of
  Espbpm after passes with raw samples 50, 50, 200 and 50 at 1000, 1020, 2000 and 2020 ms.
\<close>

definition tick :: "int \<Rightarrow> ulong \<Rightarrow> nat \<Rightarrow> tick_in" where
  "tick r t x = \<lparr> raw = r, t_now = t, t_jit = t, t_jit2 = t, rnd_jitter = x,
     rnd_drift = 25, rnd_shape = 15, rnd_noise = 60 \<rparr>"

definition st1 :: state where
  "st1 = init_state\<lparr>dc := 4, gainEstimate := 19 / 10, smoothBuf := [4600, 0, 0, 0, 0],
     smoothPos := 1, rms := 368, curr := 4600\<rparr>"

definition st2 :: state where
  "st2 = st1\<lparr>dc := 192 / 25, gainEstimate := 6771 / 2500, smoothBuf := [4600, 4232, 0, 0, 0],
     smoothPos := 2, lastBeatTime := 1020, lastValidBeatTime := 1020, rms := 17296 / 25,
     prev1 := 4600, curr := 4416, ledPin := True\<rparr>"

definition st3 :: state where
  "st3 = st2\<lparr>dc := 14416 / 625, gainEstimate := 154823 / 25000,
     smoothBuf := [4600, 4232, 17142, 0, 0], smoothPos := 3, rms := 830708 / 625,
     prev2 := 4600, prev1 := 4416, curr := 8658, ledPin := False\<rparr>"

definition st4 :: state where
  "st4 = st3\<lparr>status := ST_OK, dc := 394068 / 15625, gainEstimate := 41029091 / 6250000,
     smoothBuf := [4600, 4232, 17142, 2264, 0], smoothPos := 4,
     lastBeatTime := 2020, lastValidBeatTime := 2020,
     beatIntervals := [1000, 0, 0, 0, 0, 0, 0, 0, 0, 0, 0, 0, 0, 0, 0, 0], beatIndex := 1, beatCount := 1,
     bpmHistory := [60, 0, 0, 0, 0], bpmHistIdx := 1, bpmHistCount := 1,
     bpmAvgWindow := [60, 0, 0, 0, 0, 0, 0, 0], bpmAvgIdx := 1, bpmAvgCount := 1,
     lastGoodBPM := 60, lastGoodTime := 2020, rms := 27930659 / 15625,
     prev2 := 4416, prev1 := 8658, curr := 14119 / 2, lastJitter := 2020, ledPin := True\<rparr>"

text \<open>The states of Pulsebyuno after passes with the same samples at 1000, 1020, 2000 and
  2020 ms.\<close>

definition ust1 :: state where
  "ust1 = st1\<lparr>status := ST_FALLBACK, ledPin := True\<rparr>"

definition ust2 :: state where
  "ust2 = st2\<lparr>status := ST_FALLBACK, ledPin := False\<rparr>"

definition ust3 :: state where
  "ust3 = st3\<lparr>status := ST_FALLBACK, lastJitter := 2000, ledPin := True\<rparr>"

definition ust4 :: state where
  "ust4 = st4\<lparr>lastJitter := 2000, ledPin := False\<rparr>"

section \<open>Views and predicates used in the statements\<close>

text \<open>
  The three push functions of the source are the same code up to the array and its
  capacity; \<open>ring_push\<close> is that code on a triple of array, write cursor and fill count,
  and \<open>beat_ring\<close>, \<open>hist_ring\<close> and \<open>avg_ring\<close> read the triples out of the state.
\<close>

definition ring_push :: "nat \<Rightarrow> 'a \<Rightarrow> 'a list \<times> nat \<times> nat \<Rightarrow> 'a list \<times> nat \<times> nat" where
  "ring_push cap v r =
     (case r of (arr, idx, cnt) \<Rightarrow>
        (arr[idx := v], (if idx + 1 \<ge> cap then 0 else idx + 1), (if cnt < cap then cnt + 1 else cnt)))"

definition beat_ring :: "state \<Rightarrow> real list \<times> nat \<times> nat" where
  "beat_ring s = (beatIntervals s, beatIndex s, beatCount s)"

definition hist_ring :: "state \<Rightarrow> real list \<times> nat \<times> nat" where
  "hist_ring s = (bpmHistory s, bpmHistIdx s, bpmHistCount s)"

definition avg_ring :: "state \<Rightarrow> real list \<times> nat \<times> nat" where
  "avg_ring s = (bpmAvgWindow s, bpmAvgIdx s, bpmAvgCount s)"

text \<open>
  The invariant of the rate pipeline: each ring has its declared length, its cursor is
  below the capacity, its count is at most the capacity and equals the cursor until the
  ring is full; every occupied slot of the interval ring passed \<open>plausibleInterval\<close>;
  every occupied slot of the two BPM windows lies in \<open>[35, 200]\<close>; and
  \<open>lastGoodBPM\<close> is 0 or lies in \<open>[35, 200]\<close> with at least one interval stored.
\<close>

definition ring_ok :: "nat \<Rightarrow> 'a list \<times> nat \<times> nat \<Rightarrow> bool" where
  "ring_ok cap r =
     (case r of (arr, idx, cnt) \<Rightarrow>
        length arr = cap \<and> idx < cap \<and> cnt \<le> cap \<and> (cnt < cap \<longrightarrow> idx = cnt))"

definition slots_ok :: "('a \<Rightarrow> bool) \<Rightarrow> 'a list \<times> nat \<times> nat \<Rightarrow> bool" where
  "slots_ok P r = (case r of (arr, idx, cnt) \<Rightarrow> \<forall>k < cnt. P (arr ! k))"

definition valid_bpm :: "real \<Rightarrow> bool" where
  "valid_bpm b = (35 \<le> b \<and> b \<le> 200)"

definition rate_inv :: "state \<Rightarrow> bool" where
  "rate_inv s =
     (ring_ok 16 (beat_ring s) \<and> slots_ok plausibleInterval (beat_ring s) \<and>
      ring_ok 5 (hist_ring s) \<and> slots_ok valid_bpm (hist_ring s) \<and>
      ring_ok 8 (avg_ring s) \<and> slots_ok valid_bpm (avg_ring s) \<and>
      (lastGoodBPM s = 0 \<or> (valid_bpm (lastGoodBPM s) \<and> 0 < beatCount s)))"

definition rate_view :: "state \<Rightarrow> (real list \<times> nat \<times> nat) \<times> (real list \<times> nat \<times> nat) \<times> (real list \<times> nat \<times> nat) \<times> real" where
  "rate_view s = (beat_ring s, hist_ring s, avg_ring s, lastGoodBPM s)"

text \<open>Names for the state after the two pushes of the OK branch (lines 252 and 253) and
  for the value of \<^verbatim>\<open>finalBPM\<close> at line 260, before the jitter block.\<close>

definition ok_state :: "state \<Rightarrow> state" where
  "ok_state s = pushBPMAvg (computeBPM s) (pushBPMHistory (computeBPM s) s)"

definition ok_bpm :: "state \<Rightarrow> real" where
  "ok_bpm s =
     (if medianBPM (ok_state s) > 0
      then avgBPM (ok_state s) * 0.6 + medianBPM (ok_state s) * 0.4
      else avgBPM (ok_state s))"

text \<open>
  States given directly, as inputs of one pass or of \<^verbatim>\<open>medianBPM\<close>: \<open>fb_st\<close> is a
  state in which \<open>lastGoodBPM\<close> is 72, the last valid beat and the last jitter are at
  10000 ms and the interval ring is empty; \<open>med4_st\<close> and \<open>med5_st\<close> hold four and five
  candidates in the median window.
\<close>

definition fb_st :: state where
  "fb_st = init_state\<lparr>status := ST_OK, lastBeatTime := 10000, lastValidBeatTime := 10000,
     lastGoodBPM := 72, lastGoodTime := 10000, lastJitter := 10000\<rparr>"

definition med4_st :: state where
  "med4_st = init_state\<lparr>bpmHistory := [72, 60, 80, 75, 0], bpmHistIdx := 4, bpmHistCount := 4\<rparr>"

definition med5_st :: state where
  "med5_st = init_state\<lparr>bpmHistory := [72, 60, 80, 75, 66], bpmHistIdx := 0, bpmHistCount := 5\<rparr>"

section \<open>Frame lemmas for the stages of a pass\<close>

lemma smoothAvg_state:
  "snd (smoothAvg v t) =
     t\<lparr>smoothBuf := smoothBuf (snd (smoothAvg v t)), smoothPos := smoothPos (snd (smoothAvg v t)),
       smoothFilled := smoothFilled (snd (smoothAvg v t))\<rparr>"
  by (simp add: smoothAvg_def Let_def)

lemma loop_front_state:
  "\<exists>a b c d e g h j k. front_state r s =
     s\<lparr>dc := a, gainEstimate := b, smoothBuf := c, smoothPos := d, smoothFilled := e,
       rms := g, prev2 := h, prev1 := j, curr := k\<rparr>"
proof -
  have "\<exists>a b v. front_state r s =
      (let s1 = snd (smoothAvg v (s\<lparr>dc := a, gainEstimate := b\<rparr>));
           f = fst (smoothAvg v (s\<lparr>dc := a, gainEstimate := b\<rparr>))
       in s1\<lparr>rms := 0.92 * rms s1 + (1 - 0.92) * \<bar>f\<bar>, prev2 := prev1 s1, prev1 := curr s1, curr := f\<rparr>)"
    unfolding front_state_def loop_front_def
    by (simp only: Let_def split_def snd_conv) blast
  then obtain a b v where
    "front_state r s =
      (let s1 = snd (smoothAvg v (s\<lparr>dc := a, gainEstimate := b\<rparr>));
           f = fst (smoothAvg v (s\<lparr>dc := a, gainEstimate := b\<rparr>))
       in s1\<lparr>rms := 0.92 * rms s1 + (1 - 0.92) * \<bar>f\<bar>, prev2 := prev1 s1, prev1 := curr s1, curr := f\<rparr>)"
    by blast
  then show ?thesis
    apply (subst (asm) smoothAvg_state)
    apply (simp add: Let_def)
    apply blast
    done
qed

lemma front_state_frame:
  "status (front_state r s) = status s"
  "lastBeatTime (front_state r s) = lastBeatTime s"
  "lastValidBeatTime (front_state r s) = lastValidBeatTime s"
  "beatIntervals (front_state r s) = beatIntervals s"
  "beatIndex (front_state r s) = beatIndex s"
  "beatCount (front_state r s) = beatCount s"
  "bpmHistory (front_state r s) = bpmHistory s"
  "bpmHistIdx (front_state r s) = bpmHistIdx s"
  "bpmHistCount (front_state r s) = bpmHistCount s"
  "bpmAvgWindow (front_state r s) = bpmAvgWindow s"
  "bpmAvgIdx (front_state r s) = bpmAvgIdx s"
  "bpmAvgCount (front_state r s) = bpmAvgCount s"
  "lastGoodBPM (front_state r s) = lastGoodBPM s"
  "lastGoodTime (front_state r s) = lastGoodTime s"
  "lastJitter (front_state r s) = lastJitter s"
  "ledPin (front_state r s) = ledPin s"
  "drift (front_state r s) = drift s"
  "shapeMod (front_state r s) = shapeMod s"
  using loop_front_state [of r s] by auto

lemma loop_front_split: "loop_front r s = (fst (loop_front r s), peak_of r s, front_state r s)"
  by (simp add: peak_of_def front_state_def)

lemma loop_beat_frame:
  "status (loop_beat p now s) = status s"
  "bpmHistory (loop_beat p now s) = bpmHistory s"
  "bpmHistIdx (loop_beat p now s) = bpmHistIdx s"
  "bpmHistCount (loop_beat p now s) = bpmHistCount s"
  "bpmAvgWindow (loop_beat p now s) = bpmAvgWindow s"
  "bpmAvgIdx (loop_beat p now s) = bpmAvgIdx s"
  "bpmAvgCount (loop_beat p now s) = bpmAvgCount s"
  "lastGoodBPM (loop_beat p now s) = lastGoodBPM s"
  "lastGoodTime (loop_beat p now s) = lastGoodTime s"
  "lastJitter (loop_beat p now s) = lastJitter s"
  unfolding loop_beat_def pushBeatInterval_def setLed_def Let_def
  by simp_all

lemma loop_status_frame:
  "lastBeatTime (snd (loop_status now s)) = lastBeatTime s"
  "lastValidBeatTime (snd (loop_status now s)) = lastValidBeatTime s"
  "beatIntervals (snd (loop_status now s)) = beatIntervals s"
  "beatIndex (snd (loop_status now s)) = beatIndex s"
  "beatCount (snd (loop_status now s)) = beatCount s"
  "lastJitter (snd (loop_status now s)) = lastJitter s"
  "ledPin (snd (loop_status now s)) = ledPin s"
  unfolding loop_status_def pushBPMAvg_def pushBPMHistory_def Let_def
  by simp_all

lemma loop_jitter_frame:
  "status (snd (loop_jitter i b s)) = status s"
  "lastBeatTime (snd (loop_jitter i b s)) = lastBeatTime s"
  "lastValidBeatTime (snd (loop_jitter i b s)) = lastValidBeatTime s"
  "beatIntervals (snd (loop_jitter i b s)) = beatIntervals s"
  "beatIndex (snd (loop_jitter i b s)) = beatIndex s"
  "beatCount (snd (loop_jitter i b s)) = beatCount s"
  "bpmHistory (snd (loop_jitter i b s)) = bpmHistory s"
  "bpmHistIdx (snd (loop_jitter i b s)) = bpmHistIdx s"
  "bpmHistCount (snd (loop_jitter i b s)) = bpmHistCount s"
  "bpmAvgWindow (snd (loop_jitter i b s)) = bpmAvgWindow s"
  "bpmAvgIdx (snd (loop_jitter i b s)) = bpmAvgIdx s"
  "bpmAvgCount (snd (loop_jitter i b s)) = bpmAvgCount s"
  "lastGoodBPM (snd (loop_jitter i b s)) = lastGoodBPM s"
  unfolding loop_jitter_def Let_def
  by simp_all

lemma loop_morph_frame:
  "status (snd (loop_morph i f s)) = status s"
  "lastBeatTime (snd (loop_morph i f s)) = lastBeatTime s"
  "lastValidBeatTime (snd (loop_morph i f s)) = lastValidBeatTime s"
  "beatIntervals (snd (loop_morph i f s)) = beatIntervals s"
  "beatIndex (snd (loop_morph i f s)) = beatIndex s"
  "beatCount (snd (loop_morph i f s)) = beatCount s"
  "bpmHistory (snd (loop_morph i f s)) = bpmHistory s"
  "bpmHistIdx (snd (loop_morph i f s)) = bpmHistIdx s"
  "bpmHistCount (snd (loop_morph i f s)) = bpmHistCount s"
  "bpmAvgWindow (snd (loop_morph i f s)) = bpmAvgWindow s"
  "bpmAvgIdx (snd (loop_morph i f s)) = bpmAvgIdx s"
  "bpmAvgCount (snd (loop_morph i f s)) = bpmAvgCount s"
  "lastGoodBPM (snd (loop_morph i f s)) = lastGoodBPM s"
  "lastJitter (snd (loop_morph i f s)) = lastJitter s"
  unfolding loop_morph_def Let_def
  by simp_all

text \<open>One pass as the composition of its stages.\<close>

lemma loop_unfold:
  "loop i s =
     (if raw i < 30 then (Calculating, (setLed True s)\<lparr>status := ST_NO_SENSOR\<rparr>)
      else case fst (loop_status (t_now i) (after_beat i s)) of
             None \<Rightarrow> (Calculating, snd (loop_status (t_now i) (after_beat i s)))
           | Some (b, c) \<Rightarrow>
               (Reading (fst (loop_morph i (fst (loop_front (raw i) s))
                               (snd (loop_jitter i b (snd (loop_status (t_now i) (after_beat i s)))))))
                        (fst (loop_jitter i b (snd (loop_status (t_now i) (after_beat i s))))) c
                        (status (snd (loop_status (t_now i) (after_beat i s)))),
                snd (loop_morph i (fst (loop_front (raw i) s))
                      (snd (loop_jitter i b (snd (loop_status (t_now i) (after_beat i s))))))))"
  unfolding loop_def after_beat_def
  apply (subst loop_front_split)
  apply (simp add: Let_def split_def loop_morph_frame loop_jitter_frame split: option.splits prod.splits)
  done

lemma loop_status_cases:
  obtains (ok) b s3 where "loop_status now s = (Some (b, 0.85), s3)" "status s3 = ST_OK"
  | (fallback) "loop_status now s = (Some (lastGoodBPM s, 0.6), s\<lparr>status := ST_FALLBACK\<rparr>)"
  | (no_sensor) "loop_status now s = (None, s\<lparr>status := ST_NO_SENSOR\<rparr>)"
  unfolding loop_status_def Let_def
  by (cases "35 \<le> computeBPM s \<and> computeBPM s \<le> 200";
      cases "now - lastValidBeatTime s < 5000 \<and> 0 < lastGoodBPM s") auto

lemma loop_status_printed:
  "printed_status (fst (loop i s)) = status (snd (loop i s)) \<and> status (snd (loop i s)) \<noteq> ST_LOW_CONF"
proof (cases "raw i < 30")
  case True
  then show ?thesis by (simp add: loop_unfold)
next
  case False
  show ?thesis
    by (rule loop_status_cases [of "t_now i" "after_beat i s"])
       (simp_all add: loop_unfold False loop_morph_frame loop_jitter_frame)
qed

lemma beat_clock_loop:
  "beat_clock (snd (loop i s)) = (if raw i < 30 then beat_clock s else beat_clock (after_beat i s))"
  by (simp add: loop_unfold beat_clock_def setLed_def loop_status_frame loop_jitter_frame loop_morph_frame
      split: option.splits prod.splits)

section \<open>The beat block\<close>

lemma plausibleInterval_iff:
  "plausibleInterval dt \<longleftrightarrow> 300 \<le> dt \<and> 35 * dt \<le> 60000"
  by (auto simp: plausibleInterval_def Let_def field_simps)

lemma uno_plausibleInterval_iff:
  "uno_plausibleInterval dt \<longleftrightarrow> 300 \<le> dt \<and> 35 * dt \<le> 60000"
proof (cases "dt > 0")
  case True
  then show ?thesis by (auto simp: uno_plausibleInterval_def Let_def field_simps)
next
  case False
  then have neg: "60000 / dt \<le> 0" by (simp add: divide_nonneg_nonpos)
  have "\<not> uno_plausibleInterval dt"
    using neg unfolding uno_plausibleInterval_def Let_def by linarith
  with False show ?thesis by simp
qed

lemma bpm_in_range_iff:
  "0 \<le> dt \<Longrightarrow> (35 \<le> 60000 / dt \<and> 60000 / dt \<le> 200) \<longleftrightarrow> plausibleInterval dt"
  by (cases "dt = 0") (auto simp: plausibleInterval_def Let_def)

lemma plausible_passes_gate:
  fixes w :: ulong
  assumes "plausibleInterval (real (unat w))"
  shows "w > 250"
proof -
  from assms have "(300::real) \<le> real (unat w)"
    unfolding plausibleInterval_iff by (rule conjunct1)
  then have "300 \<le> unat w" by linarith
  then have "unat (250 :: ulong) < unat w" by simp
  then show ?thesis by (simp only: word_less_nat_alt)
qed

lemma beat_clock_loop_beat:
  "beat_clock (loop_beat p now s) =
     (if p \<and> now - lastBeatTime s > 250 \<and>
         (lastBeatTime s = 0 \<or> plausibleInterval (real (unat (now - lastBeatTime s))))
      then (if lastBeatTime s = 0
            then (now, now, beatIntervals s, beatIndex s, beatCount s)
            else (now, now, (beatIntervals s)[beatIndex s := real (unat (now - lastBeatTime s))],
                  (if beatIndex s + 1 \<ge> 16 then 0 else beatIndex s + 1),
                  (if beatCount s < 16 then beatCount s + 1 else beatCount s)))
      else beat_clock s)"
  by (simp add: loop_beat_def beat_clock_def setLed_def pushBeatInterval_def Let_def)

lemma beat_clock_uno_loop_beat:
  "beat_clock (uno_loop_beat p now s) =
     (if p \<and> now - lastBeatTime s > 250 \<and>
         (lastBeatTime s = 0 \<or> uno_plausibleInterval (real (unat (now - lastBeatTime s))))
      then (if lastBeatTime s = 0
            then (now, now, beatIntervals s, beatIndex s, beatCount s)
            else (now, now, (beatIntervals s)[beatIndex s := real (unat (now - lastBeatTime s))],
                  (if beatIndex s + 1 \<ge> 16 then 0 else beatIndex s + 1),
                  (if beatCount s < 16 then beatCount s + 1 else beatCount s)))
      else beat_clock s)"
  by (simp add: uno_loop_beat_def beat_clock_def pushBeatInterval_def Let_def)

lemma beat_clock_front_state: "beat_clock (front_state r s) = beat_clock s"
  by (simp add: beat_clock_def front_state_frame)

lemma beat_clock_pass:
  "beat_clock (snd (loop i s)) =
     (if registers_beat i s
      then (if lastBeatTime s = 0
            then (t_now i, t_now i, beatIntervals s, beatIndex s, beatCount s)
            else (t_now i, t_now i,
                  (beatIntervals s)[beatIndex s := real (unat (t_now i - lastBeatTime s))],
                  (if beatIndex s + 1 \<ge> 16 then 0 else beatIndex s + 1),
                  (if beatCount s < 16 then beatCount s + 1 else beatCount s)))
      else beat_clock s)"
  by (simp add: beat_clock_loop after_beat_def beat_clock_loop_beat front_state_frame
      beat_clock_front_state registers_beat_def)

section \<open>Pulsebyuno: frames\<close>

lemma uno_loop_status_frame:
  "lastBeatTime (snd (uno_loop_status now s)) = lastBeatTime s"
  "lastValidBeatTime (snd (uno_loop_status now s)) = lastValidBeatTime s"
  "beatIntervals (snd (uno_loop_status now s)) = beatIntervals s"
  "beatIndex (snd (uno_loop_status now s)) = beatIndex s"
  "beatCount (snd (uno_loop_status now s)) = beatCount s"
  unfolding uno_loop_status_def pushBPMAvg_def pushBPMHistory_def Let_def
  by simp_all

lemma uno_loop_jitter_frame:
  "status (snd (uno_loop_jitter i b s)) = status s"
  "lastBeatTime (snd (uno_loop_jitter i b s)) = lastBeatTime s"
  "lastValidBeatTime (snd (uno_loop_jitter i b s)) = lastValidBeatTime s"
  "beatIntervals (snd (uno_loop_jitter i b s)) = beatIntervals s"
  "beatIndex (snd (uno_loop_jitter i b s)) = beatIndex s"
  "beatCount (snd (uno_loop_jitter i b s)) = beatCount s"
  "lastGoodBPM (snd (uno_loop_jitter i b s)) = lastGoodBPM s"
  unfolding uno_loop_jitter_def Let_def
  by simp_all

lemma uno_loop_unfold:
  "uno_loop i s =
     (if raw i < 30 then (Calculating, s\<lparr>ledPin := True\<rparr>)
      else case fst (uno_loop_status (t_now i) (uno_after_beat i s)) of
             None \<Rightarrow> (Calculating, snd (uno_loop_status (t_now i) (uno_after_beat i s)))
           | Some (b, c) \<Rightarrow>
               (Reading (fst (loop_front (raw i) s))
                        (fst (uno_loop_jitter i b (snd (uno_loop_status (t_now i) (uno_after_beat i s))))) c
                        (status (snd (uno_loop_status (t_now i) (uno_after_beat i s)))),
                snd (uno_loop_jitter i b (snd (uno_loop_status (t_now i) (uno_after_beat i s))))))"
  unfolding uno_loop_def uno_after_beat_def
  apply (subst loop_front_split)
  apply (simp add: Let_def split_def uno_loop_jitter_frame split: option.splits prod.splits)
  done

lemma beat_clock_uno_loop:
  "beat_clock (snd (uno_loop i s)) =
     (if raw i < 30 then beat_clock s else beat_clock (uno_after_beat i s))"
  by (simp add: uno_loop_unfold beat_clock_def uno_loop_status_frame uno_loop_jitter_frame
      split: option.splits prod.splits)

lemma beat_clock_uno_pass:
  "beat_clock (snd (uno_loop i s)) =
     (if uno_registers_beat i s
      then (if lastBeatTime s = 0
            then (t_now i, t_now i, beatIntervals s, beatIndex s, beatCount s)
            else (t_now i, t_now i,
                  (beatIntervals s)[beatIndex s := real (unat (t_now i - lastBeatTime s))],
                  (if beatIndex s + 1 \<ge> 16 then 0 else beatIndex s + 1),
                  (if beatCount s < 16 then beatCount s + 1 else beatCount s)))
      else beat_clock s)"
  by (simp add: beat_clock_uno_loop uno_after_beat_def beat_clock_uno_loop_beat front_state_frame
      beat_clock_front_state uno_registers_beat_def)

section \<open>Runs\<close>

lemma run_snoc: "run (is @ [i]) s = (fst (run is s) @ [fst (loop i (snd (run is s)))], snd (loop i (snd (run is s))))"
  by (induction "is" arbitrary: s) (simp_all add: split_def Let_def)

lemma uno_run_snoc:
  "uno_run (is @ [i]) s =
     (fst (uno_run is s) @ [fst (uno_loop i (snd (uno_run is s)))], snd (uno_loop i (snd (uno_run is s))))"
  by (induction "is" arbitrary: s) (simp_all add: split_def Let_def)





lemma loop_not_low_conf: "ST_LOW_CONF \<noteq> status (snd (loop i s))"
  using loop_status_printed [of i s] by auto

lemma run_status_not_low_conf:
  "status s \<noteq> ST_LOW_CONF \<Longrightarrow> status (snd (run is s)) \<noteq> ST_LOW_CONF"
  by (induction "is" arbitrary: s) (simp_all add: split_def Let_def loop_status_printed)

lemma run_printed_not_low_conf: "ST_LOW_CONF \<notin> set (map printed_status (fst (run is s)))"
  by (induction "is" arbitrary: s) (simp_all add: split_def Let_def loop_status_printed loop_not_low_conf)

section \<open>The presence floor and the fallback guard\<close>

lemma loop_no_finger:
  "raw i < 30 \<Longrightarrow> loop i s = (Calculating, s\<lparr>status := ST_NO_SENSOR, ledPin := False\<rparr>)"
  by (simp add: loop_def setLed_def)

lemma run_no_finger:
  "\<forall>i \<in> set is. raw i < 30 \<Longrightarrow> is \<noteq> [] \<Longrightarrow>
   run is s = (replicate (length is) Calculating, s\<lparr>status := ST_NO_SENSOR, ledPin := False\<rparr>)"
proof (induction "is" arbitrary: s)
  case Nil
  then show ?case by simp
next
  case (Cons i "is")
  show ?case
  proof (cases "is = []")
    case True
    with Cons.prems show ?thesis by (simp add: loop_no_finger)
  next
    case False
    with Cons.prems Cons.IH [of "s\<lparr>status := ST_NO_SENSOR, ledPin := False\<rparr>"]
    show ?thesis by (simp add: loop_no_finger)
  qed
qed

lemma uno_loop_no_finger:
  "raw i < 30 \<Longrightarrow> uno_loop i s = (Calculating, s\<lparr>ledPin := True\<rparr>)"
  by (simp add: uno_loop_def)


lemma fallback_guard:
  assumes "status (snd (loop i s)) = ST_FALLBACK"
  shows "raw i \<ge> 30 \<and> \<not> (35 \<le> computeBPM (after_beat i s) \<and> computeBPM (after_beat i s) \<le> 200) \<and>
         t_now i - lastValidBeatTime (after_beat i s) < 5000 \<and> lastGoodBPM s > 0"
proof (cases "raw i < 30")
  case True
  with assms show ?thesis by (simp add: loop_no_finger)
next
  case False
  have lg: "lastGoodBPM (after_beat i s) = lastGoodBPM s"
    by (simp add: after_beat_def loop_beat_frame front_state_frame)
  from assms False have "status (snd (loop_status (t_now i) (after_beat i s))) = ST_FALLBACK"
    by (simp add: loop_unfold loop_morph_frame loop_jitter_frame split: option.splits prod.splits)
  then show ?thesis
    using False lg unfolding loop_status_def Let_def
    by (auto split: if_splits)
qed

section \<open>Evaluation of the concrete passes\<close>

lemma sum_slots_numeral:
  "sum_slots (numeral k) a = sum_slots (pred_numeral k) a + a ! (pred_numeral k)"
  by (simp add: numeral_eq_Suc)

lemma front_eval1:
  assumes "dc s = 0" "gainEstimate s = 1" "smoothBuf s = [0, 0, 0, 0, 0]" "smoothPos s = 0"
    "smoothFilled s = False" "rms s = 0" "prev1 s = 0" "curr s = 0"
  shows "loop_front 50 s = (4600, False,
     s\<lparr>dc := 4, gainEstimate := 19 / 10, smoothBuf := [4600, 0, 0, 0, 0], smoothPos := 1,
       rms := 368, prev2 := 0, prev1 := 0, curr := 4600\<rparr>)"
  unfolding loop_front_def Let_def
  apply (simp add: assms constrain_def to_long_def)
  apply (simp add: smoothAvg_def assms sum_slots_numeral)
  done

lemma front_eval2:
  assumes "dc s = 4" "gainEstimate s = 19 / 10" "smoothBuf s = [4600, 0, 0, 0, 0]" "smoothPos s = 1"
    "smoothFilled s = False" "rms s = 368" "prev1 s = 0" "curr s = 4600"
  shows "loop_front 50 s = (4416, True,
     s\<lparr>dc := 192 / 25, gainEstimate := 6771 / 2500, smoothBuf := [4600, 4232, 0, 0, 0], smoothPos := 2,
       rms := 17296 / 25, prev2 := 0, prev1 := 4600, curr := 4416\<rparr>)"
  unfolding loop_front_def Let_def
  apply (simp add: assms constrain_def to_long_def)
  apply (simp add: smoothAvg_def assms sum_slots_numeral)
  done

lemma front_eval3:
  assumes "dc s = 192 / 25" "gainEstimate s = 6771 / 2500" "smoothBuf s = [4600, 4232, 0, 0, 0]"
    "smoothPos s = 2" "smoothFilled s = False" "rms s = 17296 / 25" "prev1 s = 4600" "curr s = 4416"
  shows "loop_front 200 s = (8658, False,
     s\<lparr>dc := 14416 / 625, gainEstimate := 154823 / 25000, smoothBuf := [4600, 4232, 17142, 0, 0],
       smoothPos := 3, rms := 830708 / 625, prev2 := 4600, prev1 := 4416, curr := 8658\<rparr>)"
  unfolding loop_front_def Let_def
  apply (simp add: assms constrain_def to_long_def)
  apply (simp add: smoothAvg_def assms sum_slots_numeral)
  done

lemma front_eval4:
  assumes "dc s = 14416 / 625" "gainEstimate s = 154823 / 25000"
    "smoothBuf s = [4600, 4232, 17142, 0, 0]" "smoothPos s = 3" "smoothFilled s = False"
    "rms s = 830708 / 625" "prev1 s = 4416" "curr s = 8658"
  shows "loop_front 50 s = (14119 / 2, True,
     s\<lparr>dc := 394068 / 15625, gainEstimate := 41029091 / 6250000,
       smoothBuf := [4600, 4232, 17142, 2264, 0], smoothPos := 4, rms := 27930659 / 15625,
       prev2 := 4416, prev1 := 8658, curr := 14119 / 2\<rparr>)"
  unfolding loop_front_def Let_def
  apply (simp add: assms constrain_def to_long_def)
  apply (simp add: smoothAvg_def assms sum_slots_numeral)
  done


lemma esp_tick1: "loop (tick 50 1000 0) init_state = (Calculating, st1)"
proof -
  have F: "loop_front 50 init_state = (4600, False,
     init_state\<lparr>dc := 4, gainEstimate := 19 / 10, smoothBuf := [4600, 0, 0, 0, 0], smoothPos := 1,
       rms := 368, prev2 := 0, prev1 := 0, curr := 4600\<rparr>)"
    by (rule front_eval1) (simp_all add: init_state_def)
  show ?thesis
    unfolding loop_def Let_def
    apply (simp add: tick_def F)
    apply (simp add: loop_beat_def setLed_def)
    apply (simp add: loop_status_def computeBPM_def init_state_def st1_def)
    done
qed

lemma esp_tick2: "loop (tick 50 1020 0) st1 = (Calculating, st2)"
proof -
  have F: "loop_front 50 st1 = (4416, True,
     st1\<lparr>dc := 192 / 25, gainEstimate := 6771 / 2500, smoothBuf := [4600, 4232, 0, 0, 0], smoothPos := 2,
       rms := 17296 / 25, prev2 := 0, prev1 := 4600, curr := 4416\<rparr>)"
    by (rule front_eval2) (simp_all add: init_state_def st1_def)
  show ?thesis
    unfolding loop_def Let_def
    apply (simp add: tick_def F)
    apply (simp add: loop_beat_def setLed_def st1_def init_state_def)
    apply (simp add: loop_status_def computeBPM_def init_state_def st1_def st2_def)
    done
qed

lemma esp_tick3: "loop (tick 200 2000 0) st2 = (Calculating, st3)"
proof -
  have F: "loop_front 200 st2 = (8658, False,
     st2\<lparr>dc := 14416 / 625, gainEstimate := 154823 / 25000, smoothBuf := [4600, 4232, 17142, 0, 0],
       smoothPos := 3, rms := 830708 / 625, prev2 := 4600, prev1 := 4416, curr := 8658\<rparr>)"
    by (rule front_eval3) (simp_all add: init_state_def st1_def st2_def)
  show ?thesis
    unfolding loop_def Let_def
    apply (simp add: tick_def F)
    apply (simp add: loop_beat_def setLed_def st1_def st2_def init_state_def)
    apply (simp add: loop_status_def computeBPM_def init_state_def st1_def st2_def st3_def)
    done
qed

lemma esp_tick4: "loop (tick 50 2020 2300) st3 = (Reading (14119 / 2) 65 0.85 ST_OK, st4)"
proof -
  have F: "loop_front 50 st3 = (14119 / 2, True,
     st3\<lparr>dc := 394068 / 15625, gainEstimate := 41029091 / 6250000,
       smoothBuf := [4600, 4232, 17142, 2264, 0], smoothPos := 4, rms := 27930659 / 15625,
       prev2 := 4416, prev1 := 8658, curr := 14119 / 2\<rparr>)"
    by (rule front_eval4) (simp_all add: init_state_def st1_def st2_def st3_def)
  show ?thesis
    unfolding loop_def Let_def
    apply (simp add: tick_def F)
    apply (simp add: loop_beat_def setLed_def st1_def st2_def st3_def init_state_def
        plausibleInterval_def pushBeatInterval_def)
    apply (simp add: loop_status_def computeBPM_def pushBPMHistory_def pushBPMAvg_def avgBPM_def
        medianBPM_def sort_loop.simps)
    apply (simp add: loop_jitter_def jitter_of_def lroundf_def random_def constrain_def tick_def)
    apply (simp add: loop_morph_def lroundf_def random_def tick_def)
    apply (simp add: st4_def st3_def st2_def st1_def init_state_def)
    done
qed

lemma st1_fields:
  "lastBeatTime st1 = 0" "lastValidBeatTime st1 = 0" "beatIndex st1 = 0" "beatCount st1 = 0"
  "beatIntervals st1 = [0, 0, 0, 0, 0, 0, 0, 0, 0, 0, 0, 0, 0, 0, 0, 0]"
  by (simp_all add: st1_def init_state_def)

lemma st3_fields:
  "lastBeatTime st3 = 1020" "lastValidBeatTime st3 = 1020" "beatIndex st3 = 0" "beatCount st3 = 0"
  "beatIntervals st3 = [0, 0, 0, 0, 0, 0, 0, 0, 0, 0, 0, 0, 0, 0, 0, 0]"
  by (simp_all add: st3_def st2_def st1_def init_state_def)

lemma peak_st1: "peak_of 50 st1"
  unfolding peak_of_def
  by (subst front_eval2) (simp_all add: st1_def init_state_def)

lemma peak_st3: "peak_of 50 st3"
  unfolding peak_of_def
  by (subst front_eval4) (simp_all add: st3_def st2_def st1_def init_state_def)


lemma registers_st3: "registers_beat (tick 50 2020 2300) st3"
  by (simp add: registers_beat_def tick_def peak_st3 st3_fields plausibleInterval_def)


lemma uno_registers_st3: "uno_registers_beat (tick 50 2020 2300) st3"
  by (simp add: uno_registers_beat_def tick_def peak_st3 st3_fields uno_plausibleInterval_def)

lemmas st_defs = init_state_def st1_def st2_def st3_def st4_def
lemmas ust_defs = ust1_def ust2_def ust3_def ust4_def

lemma uno_tick1: "uno_loop (tick 50 1000 0) init_state = (Reading 4600 0 0.6 ST_FALLBACK, ust1)"
proof -
  have F: "loop_front 50 init_state = (4600, False,
     init_state\<lparr>dc := 4, gainEstimate := 19 / 10, smoothBuf := [4600, 0, 0, 0, 0], smoothPos := 1,
       rms := 368, prev2 := 0, prev1 := 0, curr := 4600\<rparr>)"
    by (rule front_eval1) (simp_all add: init_state_def)
  show ?thesis
    unfolding uno_loop_def Let_def
    apply (simp add: tick_def F)
    apply (simp add: uno_loop_beat_def)
    apply (simp add: uno_loop_status_def uno_computeBPM_def init_state_def)
    apply (simp add: uno_loop_jitter_def tick_def)
    apply (simp add: st_defs ust_defs)
    done
qed

lemma uno_tick2: "uno_loop (tick 50 1020 0) ust1 = (Reading 4416 0 0.6 ST_FALLBACK, ust2)"
proof -
  have F: "loop_front 50 ust1 = (4416, True,
     ust1\<lparr>dc := 192 / 25, gainEstimate := 6771 / 2500, smoothBuf := [4600, 4232, 0, 0, 0], smoothPos := 2,
       rms := 17296 / 25, prev2 := 0, prev1 := 4600, curr := 4416\<rparr>)"
    by (rule front_eval2) (simp_all add: st_defs ust_defs)
  show ?thesis
    unfolding uno_loop_def Let_def
    apply (simp add: tick_def F)
    apply (simp add: uno_loop_beat_def st_defs ust_defs)
    apply (simp add: uno_loop_status_def uno_computeBPM_def)
    apply (simp add: uno_loop_jitter_def tick_def)
    done
qed

lemma uno_tick3: "uno_loop (tick 200 2000 0) ust2 = (Reading 8658 35 0.6 ST_FALLBACK, ust3)"
proof -
  have F: "loop_front 200 ust2 = (8658, False,
     ust2\<lparr>dc := 14416 / 625, gainEstimate := 154823 / 25000, smoothBuf := [4600, 4232, 17142, 0, 0],
       smoothPos := 3, rms := 830708 / 625, prev2 := 4600, prev1 := 4416, curr := 8658\<rparr>)"
    by (rule front_eval3) (simp_all add: st_defs ust_defs)
  show ?thesis
    unfolding uno_loop_def Let_def
    apply (simp add: tick_def F)
    apply (simp add: uno_loop_beat_def st_defs ust_defs)
    apply (simp add: uno_loop_status_def uno_computeBPM_def)
    apply (simp add: uno_loop_jitter_def tick_def random_def to_long_def constrain_def)
    done
qed

lemma uno_tick4: "uno_loop (tick 50 2020 0) ust3 = (Reading (14119 / 2) 60 0.8 ST_OK, ust4)"
proof -
  have F: "loop_front 50 ust3 = (14119 / 2, True,
     ust3\<lparr>dc := 394068 / 15625, gainEstimate := 41029091 / 6250000,
       smoothBuf := [4600, 4232, 17142, 2264, 0], smoothPos := 4, rms := 27930659 / 15625,
       prev2 := 4416, prev1 := 8658, curr := 14119 / 2\<rparr>)"
    by (rule front_eval4) (simp_all add: st_defs ust_defs)
  show ?thesis
    unfolding uno_loop_def Let_def
    apply (simp add: tick_def F)
    apply (simp add: uno_loop_beat_def st_defs ust_defs uno_plausibleInterval_def pushBeatInterval_def)
    apply (simp add: uno_loop_status_def uno_computeBPM_def pushBPMHistory_def pushBPMAvg_def avgBPM_def)
    apply (simp add: uno_loop_jitter_def tick_def)
    done
qed

lemma uno_run4:
  "uno_run [tick 50 1000 0, tick 50 1020 0, tick 200 2000 0, tick 50 2020 0] init_state =
     ([Reading 4600 0 0.6 ST_FALLBACK, Reading 4416 0 0.6 ST_FALLBACK, Reading 8658 35 0.6 ST_FALLBACK,
       Reading (14119 / 2) 60 0.8 ST_OK], ust4)"
  by (simp add: uno_tick1 uno_tick2 uno_tick3 uno_tick4)

lemma esp_run4:
  "run [tick 50 1000 0, tick 50 1020 0, tick 200 2000 0, tick 50 2020 2300] init_state =
     ([Calculating, Calculating, Calculating, Reading (14119 / 2) 65 0.85 ST_OK], st4)"
  by (simp add: esp_tick1 esp_tick2 esp_tick3 esp_tick4)

section \<open>The insertion sort of medianBPM\<close>

lemma insort_snoc_greater:
  fixes key :: real
  shows "key \<le> y \<Longrightarrow> insort key (ys @ [y]) = insort key ys @ [y]"
  by (induction ys) auto

lemma insort_at_end:
  fixes key :: real
  assumes "sorted ys" and "\<forall>y \<in> set ys. y \<le> key"
  shows "insort key ys = ys @ [key]"
proof -
  have "sorted (ys @ [key])"
    using assms by (simp add: sorted_append)
  then have "sort (ys @ [key]) = ys @ [key]"
    by (rule sorted_sort_id)
  moreover have "sort (ys @ [key]) = insort key ys"
    by (rule properties_for_sort) (simp_all add: sorted_insort assms(1))
  ultimately show ?thesis by simp
qed

lemma take_Suc_update:
  assumes "m \<le> i" and "i < length t"
  shows "take (Suc i) (t[m := key]) = take m t @ key # take (i - m) (drop (Suc m) t)"
proof -
  from assms have m: "m < length t" by simp
  have "take (Suc i) (t[m := key]) = take (Suc i) (take m t @ key # drop (Suc m) t)"
    by (simp only: upd_conv_take_nth_drop [OF m])
  also have "\<dots> = take m t @ key # take (i - m) (drop (Suc m) t)"
    using assms by (simp add: min_absorb2 Suc_diff_le)
  finally show ?thesis .
qed

text \<open>
  The inner loop started at \<open>j = m - 1\<close> on an array whose first \<open>m\<close> slots are sorted,
  followed by the final store \<open>t[j+1] = key\<close>: the key is inserted into the first \<open>m\<close>
  slots, the slots after them move up by one, and the slots above \<open>i\<close> are untouched.
\<close>

lemma shift_loop_insort:
  "m \<le> i \<Longrightarrow> i < length t \<Longrightarrow> sorted (take m t) \<Longrightarrow>
   (case shift_loop t key (int m - 1) of
      (t', j) \<Rightarrow>
        0 \<le> j + 1 \<and> nat (j + 1) \<le> m \<and> length t' = length t \<and>
        take (Suc i) (t'[nat (j + 1) := key]) =
          insort key (take m t) @ take (i - m) (drop (Suc m) t) \<and>
        drop (Suc i) t' = drop (Suc i) t)"
proof (induction m arbitrary: t)
  case 0
  have "shift_loop t key (- 1) = (t, - 1)"
    by (subst shift_loop.simps) simp
  with 0 show ?case
    by (simp add: take_Suc_update)
next
  case (Suc m)
  have mi: "m \<le> i" "Suc m \<le> i" "m < length t" "Suc m < length t"
    using Suc.prems by simp_all
  show ?case
  proof (cases "t ! m > key")
    case True
    let ?t1 = "t[Suc m := t ! m]"
    have step: "shift_loop t key (int (Suc m) - 1) = shift_loop ?t1 key (int m - 1)"
      using True by (subst shift_loop.simps) (simp add: nat_add_distrib)
    have sorted1: "sorted (take m ?t1)"
    proof -
      have "take m ?t1 = take m t" by simp
      moreover have "sorted (take m t)"
        using Suc.prems(3) by (simp add: take_Suc_conv_app_nth [OF mi(3)] sorted_append)
      ultimately show ?thesis by simp
    qed
    have len1: "i < length ?t1" using Suc.prems by simp
    note IH = Suc.IH [OF mi(1) len1 sorted1]
    have drop1: "drop (Suc m) ?t1 = t ! m # drop (Suc (Suc m)) t"
      using mi(4) by (simp add: upd_conv_take_nth_drop drop_Cons')
    have tk: "take (i - m) (drop (Suc m) ?t1) = t ! m # take (i - Suc m) (drop (Suc (Suc m)) t)"
      using mi(2) by (simp add: drop1 take_Cons')
    have ins: "insort key (take (Suc m) t) = insort key (take m t) @ [t ! m]"
      using True by (simp add: take_Suc_conv_app_nth [OF mi(3)] insort_snoc_greater)
    have dr: "drop (Suc i) ?t1 = drop (Suc i) t"
      using mi(2) by simp
    show ?thesis
      using IH unfolding step
      by (auto simp: tk ins dr split: prod.splits)
  next
    case False
    have stop: "shift_loop t key (int (Suc m) - 1) = (t, int m)"
      using False by (subst shift_loop.simps) simp
    have "\<forall>y \<in> set (take (Suc m) t). y \<le> key"
    proof
      fix y assume "y \<in> set (take (Suc m) t)"
      then obtain k where k: "k < Suc m" "y = t ! k"
        using mi(4) by (auto simp: in_set_conv_nth)
      have "take (Suc m) t ! k \<le> take (Suc m) t ! m"
        using Suc.prems(3) k(1) mi(4) by (intro sorted_nth_mono) simp_all
      then have "t ! k \<le> t ! m" using k(1) by simp
      with False k show "y \<le> key" by simp
    qed
    then have ins: "insort key (take (Suc m) t) = take (Suc m) t @ [key]"
      by (rule insort_at_end [OF Suc.prems(3)])
    show ?thesis
      unfolding stop using Suc.prems
      by (simp add: nat_add_distrib take_Suc_update ins)
  qed
qed

lemma mset_take_split:
  "k \<le> n \<Longrightarrow> mset (take n xs) = mset (take k xs) + mset (take (n - k) (drop k xs))"
  by (metis le_add_diff_inverse mset_append take_add)

lemma sorted_take_one: "sorted (take (Suc 0) (xs :: real list))"
  by (cases xs) simp_all

text \<open>The outer loop from \<open>i\<close> on, when the first \<open>i\<close> slots are already sorted.\<close>

lemma sort_loop_sorts:
  "0 < i \<Longrightarrow> i \<le> n \<Longrightarrow> n \<le> length t \<Longrightarrow> sorted (take i t) \<Longrightarrow>
   take n (sort_loop t i n) = sort (take n t) \<and> length (sort_loop t i n) = length t"
proof (induction t i n rule: sort_loop.induct)
  case (1 t i n)
  show ?case
  proof (cases "i < n")
    case False
    with "1.prems" have "i = n" by simp
    then have "sort_loop t i n = t" by (subst sort_loop.simps) simp
    with "1.prems" \<open>i = n\<close> show ?thesis by (simp add: sorted_sort_id)
  next
    case True
    obtain t' j where sh: "shift_loop t (t ! i) (int i - 1) = (t', j)"
      by (cases "shift_loop t (t ! i) (int i - 1)") auto
    let ?t1 = "t'[nat (j + 1) := t ! i]"
    have il: "i < length t" using True "1.prems" by simp
    from shift_loop_insort [OF le_refl il "1.prems"(4), of "t ! i"] sh
    have j: "nat (j + 1) \<le> i" and len: "length t' = length t"
      and tk: "take (Suc i) ?t1 = insort (t ! i) (take i t)"
      and dr: "drop (Suc i) t' = drop (Suc i) t"
      by simp_all
    have dr1: "drop (Suc i) ?t1 = drop (Suc i) t"
      using j dr by simp
    have step: "sort_loop t i n = sort_loop ?t1 (i + 1) n"
      using True sh by (subst sort_loop.simps) simp
    have sorted1: "sorted (take (i + 1) ?t1)"
      using tk "1.prems"(4) by (simp add: sorted_insort)
    have "take n (sort_loop ?t1 (i + 1) n) = sort (take n ?t1) \<and>
          length (sort_loop ?t1 (i + 1) n) = length ?t1"
      using "1.IH" [OF True refl sh [symmetric] refl] True "1.prems" len sorted1
      by simp
    moreover have "mset (take n ?t1) = mset (take n t)"
    proof -
      have n: "Suc i \<le> n" using True by simp
      have "mset (take n ?t1) = mset (take (Suc i) ?t1) + mset (take (n - Suc i) (drop (Suc i) ?t1))"
        by (rule mset_take_split [OF n])
      also have "\<dots> = add_mset (t ! i) (mset (take i t)) + mset (take (n - Suc i) (drop (Suc i) t))"
        by (simp add: tk dr1)
      also have "\<dots> = mset (take (Suc i) t) + mset (take (n - Suc i) (drop (Suc i) t))"
        by (simp add: take_Suc_conv_app_nth [OF il])
      also have "\<dots> = mset (take n t)"
        by (rule mset_take_split [OF n, symmetric])
      finally show ?thesis .
    qed
    then have "sort (take n ?t1) = sort (take n t)"
      by (intro properties_for_sort) simp_all
    ultimately show ?thesis
      using step len by simp
  qed
qed

lemma medianBPM_sorted_middle:
  assumes "0 < bpmHistCount s" and "bpmHistCount s \<le> length (bpmHistory s)"
  shows "medianBPM s = sort (take (bpmHistCount s) (bpmHistory s)) ! (bpmHistCount s div 2)"
proof -
  let ?n = "bpmHistCount s"
  let ?t = "take ?n (bpmHistory s)"
  have len: "length ?t = ?n" using assms by simp
  have "sorted (take 1 ?t)" using sorted_take_one [of ?t] by simp
  from sort_loop_sorts [of 1 ?n ?t, OF _ _ _ this] assms len
  have "take ?n (sort_loop ?t 1 ?n) = sort ?t" and "length (sort_loop ?t 1 ?n) = ?n"
    by simp_all
  then have "sort_loop ?t 1 ?n = sort ?t" by simp
  with assms show ?thesis by (simp add: medianBPM_def Let_def)
qed

section \<open>The three rings\<close>

lemma beat_ring_push: "beat_ring (pushBeatInterval v s) = ring_push 16 v (beat_ring s)"
  by (simp add: beat_ring_def pushBeatInterval_def ring_push_def Let_def)

lemma hist_ring_push: "hist_ring (pushBPMHistory v s) = ring_push 5 v (hist_ring s)"
  by (simp add: hist_ring_def pushBPMHistory_def ring_push_def Let_def)

lemma avg_ring_push: "avg_ring (pushBPMAvg v s) = ring_push 8 v (avg_ring s)"
  by (simp add: avg_ring_def pushBPMAvg_def ring_push_def Let_def)

lemma beat_ring_fold: "beat_ring (fold pushBeatInterval xs s) = fold (ring_push 16) xs (beat_ring s)"
  by (induction xs arbitrary: s) (simp_all add: beat_ring_push)

lemma hist_ring_fold: "hist_ring (fold pushBPMHistory xs s) = fold (ring_push 5) xs (hist_ring s)"
  by (induction xs arbitrary: s) (simp_all add: hist_ring_push)

lemma avg_ring_fold: "avg_ring (fold pushBPMAvg xs s) = fold (ring_push 8) xs (avg_ring s)"
  by (induction xs arbitrary: s) (simp_all add: avg_ring_push)

lemma mod_neq_in_window:
  fixes j n cap :: nat
  assumes "j < n" and "n < j + cap"
  shows "j mod cap \<noteq> n mod cap"
proof
  assume "j mod cap = n mod cap"
  then have "n mod cap = j mod cap" by simp
  moreover have "j \<le> n" using assms(1) by simp
  ultimately have "cap dvd n - j" by (simp add: mod_eq_dvd_iff_nat)
  moreover have "0 < n - j" "n - j < cap" using assms by simp_all
  ultimately show False by (auto dest: dvd_imp_le)
qed

text \<open>
  After pushing the values \<open>xs\<close> into an empty ring of capacity \<open>cap\<close>: the cursor is
  \<open>length xs mod cap\<close>, the count is \<open>min (length xs) cap\<close>, each of the last \<open>cap\<close>
  values sits in the slot given by its position modulo \<open>cap\<close>, and a slot that no push
  has reached keeps its initial content.
\<close>

lemma ring_fold_contents:
  assumes "0 < cap" and "length arr = cap"
  shows "\<exists>arr'. fold (ring_push cap) xs (arr, 0, 0) = (arr', length xs mod cap, min (length xs) cap) \<and>
           length arr' = cap \<and>
           (\<forall>j < length xs. length xs \<le> j + cap \<longrightarrow> arr' ! (j mod cap) = xs ! j) \<and>
           (\<forall>k < cap. length xs \<le> k \<longrightarrow> arr' ! k = arr ! k)"
proof (induction xs rule: rev_induct)
  case Nil
  show ?case using assms by simp
next
  case (snoc x xs)
  let ?n = "length xs"
  from snoc obtain a where
    f: "fold (ring_push cap) xs (arr, 0, 0) = (a, ?n mod cap, min ?n cap)" and
    la: "length a = cap" and
    win: "\<forall>j < ?n. ?n \<le> j + cap \<longrightarrow> a ! (j mod cap) = xs ! j" and
    old: "\<forall>k < cap. ?n \<le> k \<longrightarrow> a ! k = arr ! k"
    by blast
  let ?a' = "a[?n mod cap := x]"
  have lt: "?n mod cap < cap" using assms(1) by simp
  have idx: "(if ?n mod cap + 1 \<ge> cap then 0 else ?n mod cap + 1) = Suc ?n mod cap"
    using lt by (auto simp: mod_Suc)
  have cnt: "(if min ?n cap < cap then min ?n cap + 1 else min ?n cap) = min (Suc ?n) cap"
    by auto
  have step: "fold (ring_push cap) (xs @ [x]) (arr, 0, 0) = (?a', Suc ?n mod cap, min (Suc ?n) cap)"
    using idx cnt by (simp add: f ring_push_def)
  have "\<forall>j < Suc ?n. Suc ?n \<le> j + cap \<longrightarrow> ?a' ! (j mod cap) = (xs @ [x]) ! j"
  proof (intro allI impI)
    fix j assume j: "j < Suc ?n" "Suc ?n \<le> j + cap"
    show "?a' ! (j mod cap) = (xs @ [x]) ! j"
    proof (cases "j = ?n")
      case True
      with lt la show ?thesis by simp
    next
      case False
      with j have jn: "j < ?n" "?n < j + cap" by simp_all
      then have "j mod cap \<noteq> ?n mod cap" by (rule mod_neq_in_window)
      then have "?a' ! (j mod cap) = a ! (j mod cap)" by simp
      also have "\<dots> = xs ! j" using win jn by simp
      finally show ?thesis using jn(1) by (simp add: nth_append)
    qed
  qed
  moreover have "\<forall>k < cap. Suc ?n \<le> k \<longrightarrow> ?a' ! k = arr ! k"
  proof (intro allI impI)
    fix k assume k: "k < cap" "Suc ?n \<le> k"
    then have "?n mod cap = ?n" by simp
    with k have "?a' ! k = a ! k" by simp
    with old k show "?a' ! k = arr ! k" by simp
  qed
  ultimately show ?case using step la by simp
qed

text \<open>One push more than the capacity: slot 0 holds the newest value, the slots after it
  the values pushed second to last-but-one, and the first value pushed is gone.\<close>

lemma ring_fold_wrap:
  assumes "0 < cap" and "length arr = cap" and "length xs = Suc cap"
  shows "fold (ring_push cap) xs (arr, 0, 0) = (xs ! cap # take (cap - 1) (tl xs), 1 mod cap, cap)"
proof -
  from ring_fold_contents [OF assms(1,2), of xs] obtain arr' where
    f: "fold (ring_push cap) xs (arr, 0, 0) = (arr', length xs mod cap, min (length xs) cap)" and
    la: "length arr' = cap" and
    win: "\<forall>j < length xs. length xs \<le> j + cap \<longrightarrow> arr' ! (j mod cap) = xs ! j"
    by blast
  have "arr' = xs ! cap # take (cap - 1) (tl xs)"
  proof (rule nth_equalityI)
    show "length arr' = length (xs ! cap # take (cap - 1) (tl xs))"
      using la assms by simp
  next
    fix k assume "k < length arr'"
    then have k: "k < cap" using la by simp
    show "arr' ! k = (xs ! cap # take (cap - 1) (tl xs)) ! k"
    proof (cases k)
      case 0
      from win [rule_format, of cap] assms have "arr' ! (cap mod cap) = xs ! cap" by simp
      with 0 show ?thesis by simp
    next
      case (Suc k')
      from win [rule_format, of k] assms k Suc have "arr' ! k = xs ! k" by simp
      moreover have "take (cap - 1) (tl xs) ! k' = xs ! Suc k'"
        using k Suc assms(3) by (simp add: nth_tl)
      ultimately show ?thesis using Suc by simp
    qed
  qed
  moreover have "length xs mod cap = 1 mod cap" using assms(3) by (simp add: mod_Suc)
  ultimately show ?thesis using f assms(3) by simp
qed

text \<open>Before the ring is full the occupied slots are the values pushed, in order.\<close>

lemma ring_fold_prefix:
  assumes "0 < cap" and "length arr = cap" and "length xs \<le> cap"
  shows "\<exists>arr'. fold (ring_push cap) xs (arr, 0, 0) = (arr', length xs mod cap, length xs) \<and>
           take (length xs) arr' = xs"
proof -
  from ring_fold_contents [OF assms(1,2), of xs] obtain arr' where
    f: "fold (ring_push cap) xs (arr, 0, 0) = (arr', length xs mod cap, min (length xs) cap)" and
    la: "length arr' = cap" and
    win: "\<forall>j < length xs. length xs \<le> j + cap \<longrightarrow> arr' ! (j mod cap) = xs ! j"
    by blast
  have "take (length xs) arr' = xs"
  proof (rule nth_equalityI)
    show "length (take (length xs) arr') = length xs" using la assms(3) by simp
  next
    fix k assume "k < length (take (length xs) arr')"
    then have k: "k < length xs" by simp
    with assms(3) have "k mod cap = k" by simp
    with win [rule_format, of k] k assms(3) show "take (length xs) arr' ! k = xs ! k" by simp
  qed
  with f assms(3) show ?thesis by (simp add: min_absorb1)
qed

text \<open>The cursor and the count stay in range under a push, from any state of the ring.\<close>

lemma ring_push_range:
  assumes "ring_push cap v (arr, idx, cnt) = (arr', idx', cnt')" and "idx < cap" and "cnt \<le> cap"
  shows "idx' < cap \<and> cnt' \<le> cap \<and> length arr' = length arr"
  using assms by (auto simp: ring_push_def split: if_splits)

text \<open>The readers depend on the slots below the count only.\<close>

lemma sum_slots_cong: "(\<And>k. k < n \<Longrightarrow> a ! k = b ! k) \<Longrightarrow> sum_slots n a = sum_slots n b"
  by (induction n) simp_all

lemma sum_slots_take: "sum_slots n (take n a) = sum_slots n a"
  by (rule sum_slots_cong) simp

lemma computeBPM_reads:
  "beatCount s' = beatCount s \<Longrightarrow>
   take (beatCount s) (beatIntervals s') = take (beatCount s) (beatIntervals s) \<Longrightarrow>
   computeBPM s' = computeBPM s"
proof -
  assume c: "beatCount s' = beatCount s"
    and t: "take (beatCount s) (beatIntervals s') = take (beatCount s) (beatIntervals s)"
  have "sum_slots (beatCount s) (beatIntervals s') = sum_slots (beatCount s) (take (beatCount s) (beatIntervals s'))"
    by (simp only: sum_slots_take)
  also have "\<dots> = sum_slots (beatCount s) (beatIntervals s)"
    by (simp only: t sum_slots_take)
  finally show ?thesis by (simp add: computeBPM_def c)
qed

lemma avgBPM_reads:
  "bpmAvgCount s' = bpmAvgCount s \<Longrightarrow>
   take (bpmAvgCount s) (bpmAvgWindow s') = take (bpmAvgCount s) (bpmAvgWindow s) \<Longrightarrow>
   avgBPM s' = avgBPM s"
proof -
  assume c: "bpmAvgCount s' = bpmAvgCount s"
    and t: "take (bpmAvgCount s) (bpmAvgWindow s') = take (bpmAvgCount s) (bpmAvgWindow s)"
  have "sum_slots (bpmAvgCount s) (bpmAvgWindow s') = sum_slots (bpmAvgCount s) (take (bpmAvgCount s) (bpmAvgWindow s'))"
    by (simp only: sum_slots_take)
  also have "\<dots> = sum_slots (bpmAvgCount s) (bpmAvgWindow s)"
    by (simp only: t sum_slots_take)
  finally show ?thesis by (simp add: avgBPM_def c)
qed

lemma medianBPM_reads:
  "bpmHistCount s' = bpmHistCount s \<Longrightarrow>
   take (bpmHistCount s) (bpmHistory s') = take (bpmHistCount s) (bpmHistory s) \<Longrightarrow>
   medianBPM s' = medianBPM s"
  by (simp add: medianBPM_def)

section \<open>The invariant of the rate pipeline\<close>

lemma ring_push_ok: "ring_ok cap r \<Longrightarrow> ring_ok cap (ring_push cap v r)"
  by (cases r) (auto simp: ring_ok_def ring_push_def)

lemma ring_push_slots:
  assumes "ring_ok cap r" and "slots_ok P r" and "P v"
  shows "slots_ok P (ring_push cap v r)"
proof -
  obtain arr idx cnt where r: "r = (arr, idx, cnt)" by (cases r) auto
  from assms(1) r have ok: "length arr = cap" "idx < cap" "cnt \<le> cap" "cnt < cap \<longrightarrow> idx = cnt"
    by (simp_all add: ring_ok_def)
  from assms(2) r have sl: "\<And>k. k < cnt \<Longrightarrow> P (arr ! k)" by (simp add: slots_ok_def)
  have "P (arr[idx := v] ! k)" if "k < (if cnt < cap then cnt + 1 else cnt)" for k
  proof (cases "k = idx")
    case True
    with ok show ?thesis using assms(3) by simp
  next
    case False
    with that ok have "k < cnt" by (auto split: if_splits)
    with False sl show ?thesis by simp
  qed
  with r show ?thesis by (simp add: slots_ok_def ring_push_def)
qed

lemma ring_push_count: "0 < cap \<Longrightarrow> 0 < snd (snd (ring_push cap v r))"
  by (cases r) (auto simp: ring_push_def)

lemma sum_slots_bounds:
  fixes a :: "real list"
  assumes "\<And>k. k < n \<Longrightarrow> lo \<le> a ! k \<and> a ! k \<le> hi"
  shows "real n * lo \<le> sum_slots n a \<and> sum_slots n a \<le> real n * hi"
  using assms
proof (induction n)
  case 0
  show ?case by simp
next
  case (Suc n)
  from Suc.prems have "lo \<le> a ! n \<and> a ! n \<le> hi" by simp
  moreover from Suc have "real n * lo \<le> sum_slots n a \<and> sum_slots n a \<le> real n * hi" by simp
  ultimately show ?case by (simp add: algebra_simps)
qed

lemma mean_bounds:
  fixes a :: "real list"
  assumes "0 < n" and "\<And>k. k < n \<Longrightarrow> lo \<le> a ! k \<and> a ! k \<le> hi"
  shows "lo \<le> sum_slots n a / real n \<and> sum_slots n a / real n \<le> hi"
proof -
  from sum_slots_bounds [of n lo a hi] assms(2)
  have "real n * lo \<le> sum_slots n a" "sum_slots n a \<le> real n * hi" by simp_all
  with assms(1) show ?thesis by (simp add: field_simps)
qed

lemma bpm_of_mean:
  fixes m :: real
  assumes "300 \<le> m" and "m \<le> 12000 / 7"
  shows "0 < m \<and> 35 \<le> 60000 / m \<and> 60000 / m \<le> 200"
proof -
  have pos: "0 < m" using assms(1) by simp
  have "35 * m \<le> 60000" "60000 \<le> 200 * m" using assms by simp_all
  with pos show ?thesis by (simp add: pos_le_divide_eq pos_divide_le_eq mult.commute)
qed

lemma computeBPM_valid:
  assumes "0 < beatCount s" and "slots_ok plausibleInterval (beat_ring s)"
  shows "valid_bpm (computeBPM s)"
proof -
  let ?m = "sum_slots (beatCount s) (beatIntervals s) / real (beatCount s)"
  have "300 \<le> beatIntervals s ! k \<and> beatIntervals s ! k \<le> 12000 / 7" if "k < beatCount s" for k
  proof -
    from assms(2) that have "plausibleInterval (beatIntervals s ! k)"
      by (simp add: slots_ok_def beat_ring_def)
    then have "300 \<le> beatIntervals s ! k" "35 * (beatIntervals s ! k) \<le> 60000"
      unfolding plausibleInterval_iff by blast+
    then show ?thesis by linarith
  qed
  from mean_bounds [OF assms(1) this] have m: "300 \<le> ?m" "?m \<le> 12000 / 7" by simp_all
  from bpm_of_mean [OF m] have "0 < ?m" "35 \<le> 60000 / ?m" "60000 / ?m \<le> 200" by blast+
  then show ?thesis
    using assms(1) unfolding computeBPM_def Let_def valid_bpm_def
    by (simp only: not_le [symmetric] if_False) simp
qed

lemma computeBPM_empty: "beatCount s = 0 \<Longrightarrow> computeBPM s = 0"
  by (simp add: computeBPM_def)

lemma avgBPM_valid:
  assumes "0 < bpmAvgCount s" and "slots_ok valid_bpm (avg_ring s)"
  shows "valid_bpm (avgBPM s)"
proof -
  have "\<And>k. k < bpmAvgCount s \<Longrightarrow> 35 \<le> bpmAvgWindow s ! k \<and> bpmAvgWindow s ! k \<le> 200"
    using assms(2) by (simp add: slots_ok_def avg_ring_def valid_bpm_def)
  from mean_bounds [OF assms(1) this] assms(1) show ?thesis
    by (simp add: avgBPM_def valid_bpm_def)
qed

lemma medianBPM_valid:
  assumes "0 < bpmHistCount s" and "ring_ok 5 (hist_ring s)" and "slots_ok valid_bpm (hist_ring s)"
  shows "valid_bpm (medianBPM s)"
proof -
  let ?n = "bpmHistCount s"
  let ?t = "take ?n (bpmHistory s)"
  from assms(2) have len: "?n \<le> length (bpmHistory s)" by (simp add: ring_ok_def hist_ring_def)
  then have lt: "length (sort ?t) = ?n" by simp
  have "?n div 2 < ?n" using assms(1) by simp
  then have "sort ?t ! (?n div 2) \<in> set (sort ?t)" using lt by (metis nth_mem)
  then have "sort ?t ! (?n div 2) \<in> set ?t" by simp
  then obtain k where "k < ?n" "sort ?t ! (?n div 2) = bpmHistory s ! k"
    using len by (auto simp: in_set_conv_nth)
  with assms(3) have "valid_bpm (sort ?t ! (?n div 2))"
    by (simp add: slots_ok_def hist_ring_def)
  then show ?thesis by (simp add: medianBPM_sorted_middle [OF assms(1) len])
qed

lemma rate_inv_view: "rate_view s' = rate_view s \<Longrightarrow> rate_inv s' = rate_inv s"
  by (simp add: rate_view_def rate_inv_def beat_ring_def)

lemma rate_view_front: "rate_view (front_state r s) = rate_view s"
  by (simp add: rate_view_def beat_ring_def hist_ring_def avg_ring_def front_state_frame)

lemma rate_view_jitter: "rate_view (snd (loop_jitter i b s)) = rate_view s"
  by (simp add: rate_view_def beat_ring_def hist_ring_def avg_ring_def loop_jitter_frame)

lemma rate_view_morph: "rate_view (snd (loop_morph i f s)) = rate_view s"
  by (simp add: rate_view_def beat_ring_def hist_ring_def avg_ring_def loop_morph_frame)

lemma rate_inv_init: "rate_inv init_state"
  by (simp add: rate_inv_def ring_ok_def slots_ok_def beat_ring_def hist_ring_def avg_ring_def
      init_state_def)

lemma rate_inv_alt:
  "rate_inv s \<longleftrightarrow>
     (case rate_view s of (br, hr, ar, lg) \<Rightarrow>
        ring_ok 16 br \<and> slots_ok plausibleInterval br \<and> ring_ok 5 hr \<and> slots_ok valid_bpm hr \<and>
        ring_ok 8 ar \<and> slots_ok valid_bpm ar \<and> (lg = 0 \<or> (valid_bpm lg \<and> 0 < snd (snd br))))"
  by (simp add: rate_inv_def rate_view_def beat_ring_def)

lemma rate_view_loop_beat:
  "rate_view (loop_beat p now s) =
     (if p \<and> 250 < now - lastBeatTime s \<and> lastBeatTime s \<noteq> 0 \<and>
         plausibleInterval (real (unat (now - lastBeatTime s)))
      then (ring_push 16 (real (unat (now - lastBeatTime s))) (beat_ring s), hist_ring s, avg_ring s,
            lastGoodBPM s)
      else rate_view s)"
  by (simp add: loop_beat_def Let_def setLed_def rate_view_def beat_ring_def hist_ring_def
      avg_ring_def pushBeatInterval_def ring_push_def)

lemma ring_push_count_mono: "snd (snd r) \<le> snd (snd (ring_push cap v r))"
  by (cases r) (auto simp: ring_push_def)

lemma rate_inv_loop_beat:
  assumes "rate_inv s"
  shows "rate_inv (loop_beat p now s) \<and> beatCount s \<le> beatCount (loop_beat p now s)"
proof -
  have cnt: "beatCount t = snd (snd (fst (rate_view t)))" for t
    by (simp add: rate_view_def beat_ring_def)
  have c0: "snd (snd (beat_ring s)) = beatCount s" by (simp add: beat_ring_def)
  have mono: "beatCount s \<le> snd (snd (ring_push 16 v (beat_ring s)))" for v
    using ring_push_count_mono [of "beat_ring s" 16 v] by (simp add: c0)
  have "beatCount s \<le> beatCount (loop_beat p now s)"
    unfolding cnt [of "loop_beat p now s"] rate_view_loop_beat
    by (auto simp: mono cnt [symmetric])
  moreover have "rate_inv (loop_beat p now s)"
    using assms mono
    unfolding rate_inv_alt rate_view_loop_beat
    by (auto simp: rate_view_def c0 intro: ring_push_ok ring_push_slots dest: order_less_le_trans)
  ultimately show ?thesis by simp
qed

lemma push_views:
  "beat_ring (pushBPMHistory v s) = beat_ring s" "avg_ring (pushBPMHistory v s) = avg_ring s"
  "lastGoodBPM (pushBPMHistory v s) = lastGoodBPM s"
  "beat_ring (pushBPMAvg v s) = beat_ring s" "hist_ring (pushBPMAvg v s) = hist_ring s"
  "lastGoodBPM (pushBPMAvg v s) = lastGoodBPM s"
  by (simp_all add: beat_ring_def hist_ring_def avg_ring_def pushBPMHistory_def pushBPMAvg_def Let_def)

lemma blend_valid:
  "valid_bpm a \<Longrightarrow> valid_bpm m \<Longrightarrow> valid_bpm (a * 0.6 + m * 0.4)"
  by (simp add: valid_bpm_def)

lemma loop_status_ok_eq:
  assumes "valid_bpm (computeBPM s)"
  shows "loop_status now s =
     (Some (ok_bpm s, 0.85), (ok_state s)\<lparr>lastGoodBPM := ok_bpm s, lastGoodTime := now, status := ST_OK\<rparr>)"
proof -
  from assms have vc: "(35 \<le> computeBPM s \<and> computeBPM s \<le> 200) = True"
    by (simp add: valid_bpm_def)
  show ?thesis
    unfolding loop_status_def Let_def ok_bpm_def ok_state_def
    by (simp only: vc if_True)
qed

lemma loop_status_ok_branch:
  assumes "rate_inv s" and "valid_bpm (computeBPM s)"
  shows "valid_bpm (ok_bpm s)"
    and "rate_inv ((ok_state s)\<lparr>lastGoodBPM := ok_bpm s, lastGoodTime := now, status := ST_OK\<rparr>)"
proof -
  let ?c = "computeBPM s"
  let ?s1 = "ok_state s"
  have hr: "hist_ring ?s1 = ring_push 5 ?c (hist_ring s)"
    by (simp add: ok_state_def push_views hist_ring_push)
  have ar: "avg_ring ?s1 = ring_push 8 ?c (avg_ring s)"
    by (simp add: ok_state_def push_views avg_ring_push)
  have br: "beat_ring ?s1 = beat_ring s"
    by (simp add: ok_state_def push_views)
  from assms(1) have inv:
    "ring_ok 16 (beat_ring s)" "slots_ok plausibleInterval (beat_ring s)"
    "ring_ok 5 (hist_ring s)" "slots_ok valid_bpm (hist_ring s)"
    "ring_ok 8 (avg_ring s)" "slots_ok valid_bpm (avg_ring s)"
    by (simp_all add: rate_inv_def)
  have hok: "ring_ok 5 (hist_ring ?s1)" "slots_ok valid_bpm (hist_ring ?s1)"
    unfolding hr using inv assms(2) by (auto intro: ring_push_ok ring_push_slots)
  have aok: "ring_ok 8 (avg_ring ?s1)" "slots_ok valid_bpm (avg_ring ?s1)"
    unfolding ar using inv assms(2) by (auto intro: ring_push_ok ring_push_slots)
  have "0 < snd (snd (hist_ring ?s1))" unfolding hr by (rule ring_push_count) simp
  then have hc: "0 < bpmHistCount ?s1" by (simp add: hist_ring_def)
  have "0 < snd (snd (avg_ring ?s1))" unfolding ar by (rule ring_push_count) simp
  then have ac: "0 < bpmAvgCount ?s1" by (simp add: avg_ring_def)
  have av: "valid_bpm (avgBPM ?s1)" by (rule avgBPM_valid [OF ac aok(2)])
  have mv: "valid_bpm (medianBPM ?s1)" by (rule medianBPM_valid [OF hc hok])
  show vb: "valid_bpm (ok_bpm s)"
  proof (cases "medianBPM ?s1 > 0")
    case True
    then have "ok_bpm s = avgBPM ?s1 * 0.6 + medianBPM ?s1 * 0.4" by (simp only: ok_bpm_def if_True)
    with blend_valid [OF av mv] show ?thesis by (simp only:)
  next
    case False
    then have "ok_bpm s = avgBPM ?s1" by (simp only: ok_bpm_def if_False)
    with av show ?thesis by (simp only:)
  qed
  have "computeBPM s \<noteq> 0" using assms(2) by (simp add: valid_bpm_def)
  then have bc: "0 < beatCount s" using computeBPM_empty [of s] by auto
  have r1: "ring_ok 16 (beat_ring ?s1)" "slots_ok plausibleInterval (beat_ring ?s1)"
    using inv br by simp_all
  have bc1: "0 < beatCount ?s1" using br bc by (simp add: beat_ring_def)
  let ?s2 = "?s1\<lparr>lastGoodBPM := ok_bpm s, lastGoodTime := now, status := ST_OK\<rparr>"
  have v2: "beat_ring ?s2 = beat_ring ?s1" "hist_ring ?s2 = hist_ring ?s1" "avg_ring ?s2 = avg_ring ?s1"
    "lastGoodBPM ?s2 = ok_bpm s" "beatCount ?s2 = beatCount ?s1"
    by (simp_all add: beat_ring_def hist_ring_def avg_ring_def)
  show "rate_inv ?s2"
    unfolding rate_inv_def v2 using r1 hok aok vb bc1 by blast
qed

lemma loop_status_inv:
  assumes "rate_inv s"
  shows "rate_inv (snd (loop_status now s)) \<and>
         (\<forall>b c. fst (loop_status now s) = Some (b, c) \<longrightarrow> valid_bpm b)"
proof (cases "valid_bpm (computeBPM s)")
  case True
  from loop_status_ok_branch(1) [OF assms True] loop_status_ok_branch(2) [OF assms True, of now]
  show ?thesis by (simp only: loop_status_ok_eq [OF True] fst_conv snd_conv) simp
next
  case False
  then have vc: "(35 \<le> computeBPM s \<and> computeBPM s \<le> 200) = False"
    by (simp add: valid_bpm_def)
  show ?thesis
  proof (cases "now - lastValidBeatTime s < 5000 \<and> lastGoodBPM s > 0")
    case fb: True
    then have fbc: "(now - lastValidBeatTime s < 5000 \<and> lastGoodBPM s > 0) = True" by simp
    have eq: "loop_status now s = (Some (lastGoodBPM s, 0.6), s\<lparr>status := ST_FALLBACK\<rparr>)"
      unfolding loop_status_def Let_def by (simp only: vc fbc if_False if_True)
    have "rate_view (s\<lparr>status := ST_FALLBACK\<rparr>) = rate_view s"
      by (simp add: rate_view_def beat_ring_def hist_ring_def avg_ring_def)
    from rate_inv_view [OF this] assms have "rate_inv (s\<lparr>status := ST_FALLBACK\<rparr>)" by simp
    moreover from fb have lg: "lastGoodBPM s \<noteq> 0" by simp
    from assms have "lastGoodBPM s = 0 \<or> valid_bpm (lastGoodBPM s)" unfolding rate_inv_def by blast
    with lg have "valid_bpm (lastGoodBPM s)" by blast
    ultimately show ?thesis by (simp add: eq)
  next
    case False
    then have nf: "(now - lastValidBeatTime s < 5000 \<and> lastGoodBPM s > 0) = False" by simp
    have eq: "loop_status now s = (None, s\<lparr>status := ST_NO_SENSOR\<rparr>)"
      unfolding loop_status_def Let_def by (simp only: vc nf if_False)
    have "rate_view (s\<lparr>status := ST_NO_SENSOR\<rparr>) = rate_view s"
      by (simp add: rate_view_def beat_ring_def hist_ring_def avg_ring_def)
    from rate_inv_view [OF this] assms have "rate_inv (s\<lparr>status := ST_NO_SENSOR\<rparr>)" by simp
    then show ?thesis by (simp add: eq)
  qed
qed

lemma rate_inv_after_beat:
  assumes "rate_inv s"
  shows "rate_inv (after_beat i s) \<and> beatCount s \<le> beatCount (after_beat i s)"
proof -
  have "rate_inv (front_state (raw i) s)"
    using assms by (simp add: rate_inv_view [OF rate_view_front])
  from rate_inv_loop_beat [OF this, of "peak_of (raw i) s" "t_now i"]
  show ?thesis by (simp add: after_beat_def front_state_frame)
qed

lemma constrain_valid: "valid_bpm (constrain x 35 200)"
  by (simp add: constrain_def valid_bpm_def)

lemma loop_jitter_fst:
  "fst (loop_jitter i b s) =
     (if t_jit i - lastJitter s > 1400 then constrain (b + jitter_of i b) 35 200 else b)"
  by (simp add: loop_jitter_def Let_def)

lemma loop_jitter_valid: "valid_bpm b \<Longrightarrow> valid_bpm (fst (loop_jitter i b s))"
  by (simp add: loop_jitter_fst constrain_valid)

lemma rate_inv_loop:
  assumes "rate_inv s"
  shows "rate_inv (snd (loop i s))"
proof (cases "raw i < 30")
  case True
  have "rate_view (s\<lparr>status := ST_NO_SENSOR, ledPin := False\<rparr>) = rate_view s"
    by (simp add: rate_view_def beat_ring_def hist_ring_def avg_ring_def)
  from rate_inv_view [OF this] assms True show ?thesis by (simp add: loop_no_finger)
next
  case False
  let ?st = "loop_status (t_now i) (after_beat i s)"
  from rate_inv_after_beat [OF assms, of i] have "rate_inv (after_beat i s)" by simp
  from loop_status_inv [OF this, of "t_now i"] have inv3: "rate_inv (snd ?st)" by simp
  show ?thesis
  proof (cases "fst ?st")
    case None
    with False inv3 show ?thesis by (simp add: loop_unfold)
  next
    case (Some bc)
    obtain b c where bc: "bc = (b, c)" by (cases bc) auto
    have "rate_view (snd (loop_morph i (fst (loop_front (raw i) s)) (snd (loop_jitter i b (snd ?st)))))
          = rate_view (snd ?st)"
      by (simp add: rate_view_morph rate_view_jitter)
    from rate_inv_view [OF this] inv3 Some bc False show ?thesis by (simp add: loop_unfold)
  qed
qed

lemma loop_reading_valid:
  assumes "rate_inv s" and "fst (loop i s) = Reading f b c st"
  shows "valid_bpm b"
proof -
  let ?st = "loop_status (t_now i) (after_beat i s)"
  from assms(2) have r: "\<not> raw i < 30" by (auto simp: loop_no_finger)
  from rate_inv_after_beat [OF assms(1), of i] have "rate_inv (after_beat i s)" by simp
  from loop_status_inv [OF this, of "t_now i"]
  have v: "\<And>b0 c0. fst ?st = Some (b0, c0) \<Longrightarrow> valid_bpm b0" by blast
  show ?thesis
  proof (cases "fst ?st")
    case None
    with r assms(2) show ?thesis by (simp add: loop_unfold)
  next
    case (Some bc)
    obtain b0 c0 where bc: "bc = (b0, c0)" by (cases bc) auto
    with Some v have "valid_bpm b0" by simp
    then have "valid_bpm (fst (loop_jitter i b0 (snd ?st)))" by (rule loop_jitter_valid)
    with r assms(2) Some bc show ?thesis by (simp add: loop_unfold)
  qed
qed

lemma loop_never_fallback:
  assumes "rate_inv s"
  shows "status (snd (loop i s)) \<noteq> ST_FALLBACK"
proof
  assume "status (snd (loop i s)) = ST_FALLBACK"
  from fallback_guard [OF this]
  have nv: "\<not> valid_bpm (computeBPM (after_beat i s))" and lg: "lastGoodBPM s > 0"
    by (simp_all add: valid_bpm_def)
  from assms lg have "0 < beatCount s" by (auto simp: rate_inv_def)
  with rate_inv_after_beat [OF assms, of i]
  have "rate_inv (after_beat i s)" "0 < beatCount (after_beat i s)" by auto
  then have "valid_bpm (computeBPM (after_beat i s))"
    by (intro computeBPM_valid) (simp_all add: rate_inv_def)
  with nv show False by simp
qed

lemma rate_inv_run: "rate_inv s \<Longrightarrow> rate_inv (snd (run is s))"
  by (induction "is" arbitrary: s) (simp_all add: split_def Let_def rate_inv_loop)

lemma run_readings_valid:
  "rate_inv s \<Longrightarrow> Reading f b c st \<in> set (fst (run is s)) \<Longrightarrow> valid_bpm b \<and> st \<noteq> ST_FALLBACK"
proof (induction "is" arbitrary: s)
  case Nil
  then show ?case by simp
next
  case (Cons i "is")
  from Cons.prems(2) have "fst (loop i s) = Reading f b c st \<or> Reading f b c st \<in> set (fst (run is (snd (loop i s))))"
    by (auto simp: split_def Let_def)
  then show ?case
  proof
    assume e: "fst (loop i s) = Reading f b c st"
    from loop_status_printed [of i s] e have "st = status (snd (loop i s))" by simp
    with loop_never_fallback [OF Cons.prems(1), of i] loop_reading_valid [OF Cons.prems(1) e]
    show ?thesis by simp
  next
    assume "Reading f b c st \<in> set (fst (run is (snd (loop i s))))"
    with Cons.IH [OF rate_inv_loop [OF Cons.prems(1)]] show ?thesis by simp
  qed
qed

lemma lroundf_valid:
  assumes "valid_bpm b"
  shows "35 \<le> lroundf b \<and> lroundf b \<le> 200"
proof -
  from assms have b: "35 \<le> b" "b \<le> 200" by (simp_all add: valid_bpm_def)
  then have r: "lroundf b = \<lfloor>b + 1 / 2\<rfloor>" by (simp add: lroundf_def)
  have "of_int 35 \<le> b + 1 / 2" using b(1) by simp
  then have lo: "35 \<le> \<lfloor>b + 1 / 2\<rfloor>" by (simp only: le_floor_iff)
  have "b + 1 / 2 < of_int 200 + 1" using b(2) by simp
  then have hi: "\<lfloor>b + 1 / 2\<rfloor> \<le> 200" by (simp only: floor_le_iff)
  from lo hi r show ?thesis by simp
qed

section \<open>The beat detector and the interval validator (claims C9, C8, C6, C2)\<close>

text \<open>
  C9. The status variable is never \<open>ST_LOW_CONF\<close> after a pass of Espbpm, whatever the
  state before the pass; the status a printed line stands for is the status variable; so
  along every run from the initial state the status variable and every printed status are
  among OK, FALLBACK and NO\_SENSOR.
\<close>

theorem status_never_low_conf:
  "status (snd (loop i s)) \<in> {ST_OK, ST_FALLBACK, ST_NO_SENSOR} \<and>
   printed_status (fst (loop i s)) = status (snd (loop i s)) \<and>
   status (snd (run is init_state)) \<noteq> ST_LOW_CONF \<and>
   ST_LOW_CONF \<notin> set (map printed_status (fst (run is init_state)))"
proof -
  have "status (snd (loop i s)) \<noteq> ST_LOW_CONF"
    using loop_status_printed [of i s] by simp
  then have "status (snd (loop i s)) \<in> {ST_OK, ST_FALLBACK, ST_NO_SENSOR}"
    by (cases "status (snd (loop i s))") simp_all
  moreover have "status init_state \<noteq> ST_LOW_CONF" by (simp add: init_state_def)
  ultimately show ?thesis
    using loop_status_printed [of i s] run_status_not_low_conf [of init_state "is"]
      run_printed_not_low_conf [of "is" init_state]
    by blast
qed

text \<open>
  C8. While \<open>lastBeatTime = 0\<close> a pass of Espbpm or of Pulsebyuno never writes the
  interval ring: a peak that passes the refractory gate only sets \<open>lastBeatTime\<close> and
  \<open>lastValidBeatTime\<close> to the current time, and any other pass leaves the beat clock as it
  was. Once \<open>lastBeatTime\<close> is not 0, a registered beat stores its interval
  \<open>now - lastBeatTime\<close> at the write cursor.
\<close>

theorem first_beat_only_anchors:
  "(raw i \<ge> 30 \<and> lastBeatTime s = 0 \<longrightarrow>
      beat_clock (snd (loop i s)) =
        (if peak_of (raw i) s \<and> t_now i > 250
         then (t_now i, t_now i, beatIntervals s, beatIndex s, beatCount s)
         else beat_clock s) \<and>
      beat_clock (snd (uno_loop i s)) =
        (if peak_of (raw i) s \<and> t_now i > 250
         then (t_now i, t_now i, beatIntervals s, beatIndex s, beatCount s)
         else beat_clock s)) \<and>
   (registers_beat i s \<and> lastBeatTime s \<noteq> 0 \<longrightarrow>
      beatIntervals (snd (loop i s)) =
        (beatIntervals s)[beatIndex s := real (unat (t_now i - lastBeatTime s))]) \<and>
   (uno_registers_beat i s \<and> lastBeatTime s \<noteq> 0 \<longrightarrow>
      beatIntervals (snd (uno_loop i s)) =
        (beatIntervals s)[beatIndex s := real (unat (t_now i - lastBeatTime s))])"
proof -
  have a: "beat_clock (snd (loop i s)) =
        (if peak_of (raw i) s \<and> t_now i > 250
         then (t_now i, t_now i, beatIntervals s, beatIndex s, beatCount s)
         else beat_clock s)" if "raw i \<ge> 30" "lastBeatTime s = 0"
    using that by (simp add: beat_clock_pass registers_beat_def)
  have b: "beat_clock (snd (uno_loop i s)) =
        (if peak_of (raw i) s \<and> t_now i > 250
         then (t_now i, t_now i, beatIntervals s, beatIndex s, beatCount s)
         else beat_clock s)" if "raw i \<ge> 30" "lastBeatTime s = 0"
    using that by (simp add: beat_clock_uno_pass uno_registers_beat_def)
  have c: "beatIntervals (snd (loop i s)) =
        (beatIntervals s)[beatIndex s := real (unat (t_now i - lastBeatTime s))]"
    if "registers_beat i s" "lastBeatTime s \<noteq> 0"
    using that beat_clock_pass [of i s] by (simp add: beat_clock_def)
  have d: "beatIntervals (snd (uno_loop i s)) =
        (beatIntervals s)[beatIndex s := real (unat (t_now i - lastBeatTime s))]"
    if "uno_registers_beat i s" "lastBeatTime s \<noteq> 0"
    using that beat_clock_uno_pass [of i s] by (simp add: beat_clock_def)
  from a b c d show ?thesis by blast
qed

theorem first_beat_only_anchors_witness:
  "raw (tick 50 1020 0) \<ge> 30 \<and> lastBeatTime st1 = 0 \<and>
   beat_clock (snd (loop (tick 50 1020 0) st1)) =
     (1020, 1020, [0, 0, 0, 0, 0, 0, 0, 0, 0, 0, 0, 0, 0, 0, 0, 0], 0, 0) \<and>
   beat_clock (snd (uno_loop (tick 50 1020 0) st1)) =
     (1020, 1020, [0, 0, 0, 0, 0, 0, 0, 0, 0, 0, 0, 0, 0, 0, 0, 0], 0, 0) \<and>
   registers_beat (tick 50 2020 2300) st3 \<and> uno_registers_beat (tick 50 2020 2300) st3 \<and>
   lastBeatTime st3 \<noteq> 0 \<and>
   beatIntervals (snd (loop (tick 50 2020 2300) st3)) =
     [1000, 0, 0, 0, 0, 0, 0, 0, 0, 0, 0, 0, 0, 0, 0, 0] \<and>
   beatIntervals (snd (uno_loop (tick 50 2020 2300) st3)) =
     [1000, 0, 0, 0, 0, 0, 0, 0, 0, 0, 0, 0, 0, 0, 0, 0]"
proof -
  have r: "raw (tick 50 2020 2300) = 50" "raw (tick 50 1020 0) = 50"
    "t_now (tick 50 2020 2300) = 2020" "t_now (tick 50 1020 0) = 1020"
    by (simp_all add: tick_def)
  show ?thesis
    using first_beat_only_anchors [of "tick 50 1020 0" st1]
      first_beat_only_anchors [of "tick 50 2020 2300" st3]
    by (simp add: r peak_st1 st1_fields st3_fields registers_st3 uno_registers_st3 beat_clock_def)
qed



text \<open>
  C2. In Espbpm, on a pass that detects a peak while a previous beat exists
  (\<open>lastBeatTime \<noteq> 0\<close>), with \<open>dt = now - lastBeatTime\<close> in milliseconds: if \<open>60000 / dt\<close>
  lies in \<open>[35, 200]\<close> the interval is stored at the write cursor of the 16-slot ring and
  \<open>lastBeatTime\<close> and \<open>lastValidBeatTime\<close> become the current time; otherwise the ring,
  its cursor and count, \<open>lastBeatTime\<close> and \<open>lastValidBeatTime\<close> all stay as they were,
  so the next interval is measured from the previous accepted beat. (For \<open>dt = 0\<close> the
  quotient is 0 in HOL and infinite in C; both are outside the range.) The printed line
  has no error form: a pass prints the CALCULATING line or a reading.
\<close>

theorem interval_validator:
  assumes "raw i \<ge> 30" and "peak_of (raw i) s" and "lastBeatTime s \<noteq> 0"
    and "dt = real (unat (t_now i - lastBeatTime s))"
  shows "beat_clock (snd (loop i s)) =
     (if 35 \<le> 60000 / dt \<and> 60000 / dt \<le> 200
      then (t_now i, t_now i, (beatIntervals s)[beatIndex s := dt],
            (if beatIndex s + 1 \<ge> 16 then 0 else beatIndex s + 1),
            (if beatCount s < 16 then beatCount s + 1 else beatCount s))
      else beat_clock s)"
proof -
  have dt0: "0 \<le> dt" by (simp only: assms(4) of_nat_0_le_iff)
  have iff: "(35 \<le> 60000 / dt \<and> 60000 / dt \<le> 200) \<longleftrightarrow> plausibleInterval dt"
    by (rule bpm_in_range_iff [OF dt0])
  have reg: "registers_beat i s \<longleftrightarrow> plausibleInterval dt"
    using assms plausible_passes_gate [of "t_now i - lastBeatTime s"]
    by (auto simp: registers_beat_def)
  show ?thesis
    unfolding iff using reg assms(3,4) by (simp add: beat_clock_pass)
qed

theorem interval_validator_witness:
  "raw (tick 50 2020 2300) \<ge> 30 \<and> peak_of (raw (tick 50 2020 2300)) st3 \<and> lastBeatTime st3 \<noteq> 0 \<and>
   beat_clock (snd (loop (tick 50 2020 2300) st3)) =
     (2020, 2020, [1000, 0, 0, 0, 0, 0, 0, 0, 0, 0, 0, 0, 0, 0, 0, 0], 1, 1) \<and>
   raw (tick 50 1060 0) \<ge> 30 \<and> peak_of (raw (tick 50 1060 0)) st3 \<and>
   beat_clock (snd (loop (tick 50 1060 0) st3)) = beat_clock st3"
proof -
  have r: "raw (tick 50 2020 2300) = 50" "raw (tick 50 1060 0) = 50"
    "t_now (tick 50 2020 2300) = 2020" "t_now (tick 50 1060 0) = 1060"
    by (simp_all add: tick_def)
  have a: "beat_clock (snd (loop (tick 50 2020 2300) st3)) =
     (2020, 2020, [1000, 0, 0, 0, 0, 0, 0, 0, 0, 0, 0, 0, 0, 0, 0, 0], 1, 1)"
    using interval_validator [of "tick 50 2020 2300" st3 1000]
    by (simp add: r peak_st3 st3_fields)
  have b: "beat_clock (snd (loop (tick 50 1060 0) st3)) = beat_clock st3"
    using interval_validator [of "tick 50 1060 0" st3 40]
    by (simp add: r peak_st3 st3_fields)
  from a b show ?thesis by (simp add: r peak_st3 st3_fields)
qed


section \<open>The status machine (claims C4, C3)\<close>

text \<open>
  C4. In Espbpm a pass with a raw sample below 30 prints the CALCULATING line, sets
  \<open>status\<close> to \<open>ST_NO_SENSOR\<close> and changes nothing else but the LED pin
  (\<open>loop_no_finger\<close>, \<open>run_no_finger\<close>). Pulsebyuno prints the same line and leaves
  baseline, gain, rings and beat clock alone as well, but its branch (lines 151 to 156)
  does not assign \<open>status\<close>: after the four passes that bring it to \<open>ST_OK\<close>, a pass
  with raw sample 20 prints CALCULATING and the status variable is still \<open>ST_OK\<close>.
\<close>

theorem uno_no_finger_keeps_status:
  "snd (uno_run [tick 50 1000 0, tick 50 1020 0, tick 200 2000 0, tick 50 2020 0] init_state) = ust4 \<and>
   status ust4 = ST_OK \<and>
   fst (uno_loop (tick 20 2040 0) ust4) = Calculating \<and>
   status (snd (uno_loop (tick 20 2040 0) ust4)) = ST_OK \<and>
   fst (loop (tick 20 2040 0) st4) = Calculating \<and>
   status (snd (loop (tick 20 2040 0) st4)) = ST_NO_SENSOR"
proof -
  have r: "raw (tick 20 2040 0) < 30" by (simp add: tick_def)
  have "status ust4 = ST_OK" "status st4 = ST_OK" by (simp_all add: ust4_def st4_def)
  moreover have "snd (uno_run [tick 50 1000 0, tick 50 1020 0, tick 200 2000 0, tick 50 2020 0]
      init_state) = ust4"
    by (simp only: uno_run4 snd_conv)
  ultimately show ?thesis
    by (simp add: uno_loop_no_finger [OF r] loop_no_finger [OF r])
qed

text \<open>
  C3. Espbpm enters FALLBACK only when no candidate is valid, less than 5000 ms have
  passed since \<open>lastValidBeatTime\<close> and \<open>lastGoodBPM > 0\<close> (\<open>fallback_guard\<close>).
  Pulsebyuno tests the time only (line 212): its very first pass after power-on, with no
  beat ever accepted and \<open>lastGoodBPM = 0\<close>, sets \<open>ST_FALLBACK\<close> and prints a reading
  with BPM 0 and confidence 0.6.
\<close>

theorem uno_fallback_before_any_beat:
  "lastBeatTime init_state = 0 \<and> beatCount init_state = 0 \<and> lastGoodBPM init_state = 0 \<and>
   uno_computeBPM (uno_after_beat (tick 50 1000 0) init_state) = 0 \<and>
   fst (uno_loop (tick 50 1000 0) init_state) = Reading 4600 0 0.6 ST_FALLBACK \<and>
   status (snd (uno_loop (tick 50 1000 0) init_state)) = ST_FALLBACK \<and>
   uno_bpmInt 0 = 0 \<and> uno_confPct 0.6 = 60"
proof -
  have F: "loop_front 50 init_state = (4600, False,
     init_state\<lparr>dc := 4, gainEstimate := 19 / 10, smoothBuf := [4600, 0, 0, 0, 0], smoothPos := 1,
       rms := 368, prev2 := 0, prev1 := 0, curr := 4600\<rparr>)"
    by (rule front_eval1) (simp_all add: init_state_def)
  have "uno_computeBPM (uno_after_beat (tick 50 1000 0) init_state) = 0"
    apply (simp add: uno_after_beat_def peak_of_def front_state_def tick_def F)
    apply (simp add: uno_loop_beat_def uno_computeBPM_def init_state_def)
    done
  moreover have "fst (uno_loop (tick 50 1000 0) init_state) = Reading 4600 0 0.6 ST_FALLBACK"
    by (simp add: uno_tick1)
  moreover have "status (snd (uno_loop (tick 50 1000 0) init_state)) = ST_FALLBACK"
    by (simp add: uno_tick1 ust1_def)
  moreover have "lastBeatTime init_state = 0 \<and> beatCount init_state = 0 \<and> lastGoodBPM init_state = 0"
    by (simp add: init_state_def)
  moreover have "uno_bpmInt 0 = 0 \<and> uno_confPct 0.6 = 60"
    by (simp add: uno_bpmInt_def uno_confPct_def to_long_def)
  ultimately show ?thesis by blast
qed

lemma esp_run3:
  "run [tick 50 1000 0, tick 50 1020 0, tick 200 2000 0] init_state =
     ([Calculating, Calculating, Calculating], st3)"
  by (simp add: esp_tick1 esp_tick2 esp_tick3)

lemma rate_inv_st3: "rate_inv st3"
  using rate_inv_run [OF rate_inv_init, of "[tick 50 1000 0, tick 50 1020 0, tick 200 2000 0]"]
  by (simp only: esp_run3 snd_conv)

lemma fb_front:
  "loop_front 50 fb_st = (4600, False,
     fb_st\<lparr>dc := 4, gainEstimate := 19 / 10, smoothBuf := [4600, 0, 0, 0, 0], smoothPos := 1,
       rms := 368, prev2 := 0, prev1 := 0, curr := 4600\<rparr>)"
  by (rule front_eval1) (simp_all add: fb_st_def init_state_def)

lemma fb_jitter_pass:
  "fst (loop (tick 50 12000 3660) fb_st) = Reading 4600 87 0.6 ST_FALLBACK \<and>
   status (snd (loop (tick 50 12000 3660) fb_st)) = ST_FALLBACK"
  unfolding loop_def Let_def
  apply (simp add: tick_def fb_front)
  apply (simp add: loop_beat_def setLed_def)
  apply (simp add: loop_status_def computeBPM_def fb_st_def init_state_def)
  apply (simp add: loop_jitter_def jitter_of_def lroundf_def random_def constrain_def tick_def)
  apply (simp add: loop_morph_def lroundf_def random_def tick_def)
  done

lemma loop_fallback_printed:
  assumes "status (snd (loop i s)) = ST_FALLBACK"
  shows "\<exists>f. fst (loop i s) =
     Reading f (if t_jit i - lastJitter s > 1400
                then constrain (lastGoodBPM s + jitter_of i (lastGoodBPM s)) 35 200
                else lastGoodBPM s) 0.6 ST_FALLBACK"
proof -
  let ?a = "after_beat i s"
  from fallback_guard [OF assms]
  have r: "\<not> raw i < 30" and vc: "(35 \<le> computeBPM ?a \<and> computeBPM ?a \<le> 200) = False"
    and t: "t_now i - lastValidBeatTime ?a < 5000" and g: "lastGoodBPM s > 0"
    by simp_all
  have lg: "lastGoodBPM ?a = lastGoodBPM s" "lastJitter ?a = lastJitter s"
    by (simp_all add: after_beat_def loop_beat_frame front_state_frame)
  from t g lg have c: "(t_now i - lastValidBeatTime ?a < 5000 \<and> lastGoodBPM ?a > 0) = True" by simp
  have "loop_status (t_now i) ?a = (Some (lastGoodBPM ?a, 0.6), ?a\<lparr>status := ST_FALLBACK\<rparr>)"
    unfolding loop_status_def Let_def by (simp only: vc c if_False if_True)
  with r lg show ?thesis
    by (simp add: loop_unfold loop_jitter_fst)
qed

lemma loop_fallback_valid:
  assumes "lastGoodBPM s = 0 \<or> valid_bpm (lastGoodBPM s)"
    and "fst (loop i s) = Reading f b c ST_FALLBACK"
  shows "valid_bpm b"
proof -
  from assms(2) loop_status_printed [of i s] have fb: "status (snd (loop i s)) = ST_FALLBACK"
    by simp
  from fallback_guard [OF fb] assms(1) have v: "valid_bpm (lastGoodBPM s)" by auto
  from loop_fallback_printed [OF fb] assms(2)
  have "b = (if t_jit i - lastJitter s > 1400
             then constrain (lastGoodBPM s + jitter_of i (lastGoodBPM s)) 35 200
             else lastGoodBPM s)"
    by auto
  with v show ?thesis by (simp add: constrain_valid)
qed

section \<open>The emitted value (claim C10)\<close>

text \<open>
  C10. With floats taken as reals, the \<^verbatim>\<open>finalBPM\<close> of every printed reading
  lies in \<open>[35, 200]\<close>, and so does the integer printed for it: on a pass from any
  state that satisfies the invariant of the rate pipeline; on a pass that takes the FALLBACK
  branch from any state whose \<open>lastGoodBPM\<close> is 0 or in range (the guard
  \<open>lastGoodBPM > 0\<close> and the clamp of the jitter block do the rest); and so along
  every run of Espbpm from the initial state.
\<close>

theorem emitted_bpm_in_range:
  "(rate_inv s \<and> fst (loop i s) = Reading f b c st \<longrightarrow>
      35 \<le> b \<and> b \<le> 200 \<and> 35 \<le> bpmInt b \<and> bpmInt b \<le> 200) \<and>
   ((lastGoodBPM s = 0 \<or> (35 \<le> lastGoodBPM s \<and> lastGoodBPM s \<le> 200)) \<and>
    fst (loop i s) = Reading f b c ST_FALLBACK \<longrightarrow>
      35 \<le> b \<and> b \<le> 200 \<and> 35 \<le> bpmInt b \<and> bpmInt b \<le> 200) \<and>
   (Reading f b c st \<in> set (fst (run is init_state)) \<longrightarrow>
      35 \<le> b \<and> b \<le> 200 \<and> 35 \<le> bpmInt b \<and> bpmInt b \<le> 200)"
proof -
  have v: "valid_bpm b \<Longrightarrow> 35 \<le> b \<and> b \<le> 200 \<and> 35 \<le> bpmInt b \<and> bpmInt b \<le> 200"
    using lroundf_valid [of b] by (simp add: valid_bpm_def bpmInt_def)
  have "valid_bpm b" if "rate_inv s" "fst (loop i s) = Reading f b c st"
    using that by (rule loop_reading_valid)
  moreover have "valid_bpm b"
    if "lastGoodBPM s = 0 \<or> (35 \<le> lastGoodBPM s \<and> lastGoodBPM s \<le> 200)"
      "fst (loop i s) = Reading f b c ST_FALLBACK"
    using loop_fallback_valid [of s i f b c] that by (simp add: valid_bpm_def)
  moreover have "valid_bpm b" if "Reading f b c st \<in> set (fst (run is init_state))"
    using run_readings_valid [OF rate_inv_init that] by simp
  ultimately show ?thesis using v by blast
qed

theorem emitted_bpm_in_range_witness:
  "rate_inv st3 \<and> fst (loop (tick 50 2020 2300) st3) = Reading (14119 / 2) 65 0.85 ST_OK \<and>
   Reading (14119 / 2) 65 0.85 ST_OK \<in>
     set (fst (run [tick 50 1000 0, tick 50 1020 0, tick 200 2000 0, tick 50 2020 2300] init_state)) \<and>
   35 \<le> bpmInt 65 \<and> bpmInt 65 \<le> 200 \<and>
   lastGoodBPM fb_st = 72 \<and>
   fst (loop (tick 50 12000 3660) fb_st) = Reading 4600 87 0.6 ST_FALLBACK \<and>
   35 \<le> bpmInt 87 \<and> bpmInt 87 \<le> 200"
proof -
  have a: "fst (loop (tick 50 2020 2300) st3) = Reading (14119 / 2) 65 0.85 ST_OK"
    by (simp only: esp_tick4 fst_conv)
  have b: "Reading (14119 / 2) 65 0.85 ST_OK \<in>
     set (fst (run [tick 50 1000 0, tick 50 1020 0, tick 200 2000 0, tick 50 2020 2300] init_state))"
    by (simp only: esp_run4 fst_conv) simp
  have g: "lastGoodBPM fb_st = 72" by (simp add: fb_st_def)
  have fb: "fst (loop (tick 50 12000 3660) fb_st) = Reading 4600 87 0.6 ST_FALLBACK"
    using fb_jitter_pass by simp
  from emitted_bpm_in_range [of st3 "tick 50 2020 2300" "14119 / 2" 65 "0.85" ST_OK
      "[tick 50 1000 0, tick 50 1020 0, tick 200 2000 0, tick 50 2020 2300]"] rate_inv_st3 a b
  have 1: "35 \<le> bpmInt 65 \<and> bpmInt 65 \<le> 200" by blast
  from emitted_bpm_in_range [of fb_st "tick 50 12000 3660" 4600 87 "0.6" ST_OK "[]"] g fb
  have 2: "35 \<le> bpmInt 87 \<and> bpmInt 87 \<le> 200" by simp
  from 1 2 rate_inv_st3 a b g fb show ?thesis by blast
qed

text \<open>
  Along every run of Espbpm from the initial state no pass takes the FALLBACK branch:
  \<open>lastGoodBPM > 0\<close> needs a stored interval, every stored interval is plausible, and
  so the candidate of \<^verbatim>\<open>computeBPM\<close> stays in \<open>[35, 200]\<close>.
\<close>

lemma run_never_fallback:
  "status (snd (run is init_state)) \<noteq> ST_FALLBACK \<and>
   ST_FALLBACK \<notin> set (map printed_status (fst (run is init_state)))"
proof -
  have "rate_inv s \<Longrightarrow> status s \<noteq> ST_FALLBACK \<Longrightarrow>
      status (snd (run is s)) \<noteq> ST_FALLBACK \<and> ST_FALLBACK \<notin> set (map printed_status (fst (run is s)))"
    for s
  proof (induction "is" arbitrary: s)
    case Nil
    then show ?case by simp
  next
    case (Cons i "is")
    have 1: "status (snd (loop i s)) \<noteq> ST_FALLBACK" by (rule loop_never_fallback [OF Cons.prems(1)])
    then have 2: "printed_status (fst (loop i s)) \<noteq> ST_FALLBACK"
      using loop_status_printed [of i s] by simp
    from Cons.IH [OF rate_inv_loop [OF Cons.prems(1)] 1] 2 show ?case
      by (simp add: split_def Let_def)
  qed
  from this [OF rate_inv_init] show ?thesis by (simp add: init_state_def)
qed

section \<open>The median (claim C5)\<close>

lemma med4_fields:
  "bpmHistCount med4_st = 4" "bpmHistory med4_st = [72, 60, 80, 75, 0]"
  by (simp_all add: med4_st_def)

lemma med5_fields:
  "bpmHistCount med5_st = 5" "bpmHistory med5_st = [72, 60, 80, 75, 66]"
  by (simp_all add: med5_st_def)

text \<open>
  C5, as stated, fails for an even count: with the four occupied slots 72, 60, 80, 75
  the sorted order is 60, 72, 75, 80; \<^verbatim>\<open>medianBPM\<close> returns \<^verbatim>\<open>t[4/2]\<close>, which is 75,
  the upper of the two middle elements, not the lower one, 72.
\<close>

theorem median_lower_middle_counterexample:
  "bpmHistCount med4_st = 4 \<and>
   sort (take (bpmHistCount med4_st) (bpmHistory med4_st)) = [60, 72, 75, 80] \<and>
   sort (take (bpmHistCount med4_st) (bpmHistory med4_st)) ! ((bpmHistCount med4_st - 1) div 2) = 72 \<and>
   medianBPM med4_st = 75"
proof -
  have "sort_loop [72, 60, 80, 75] 1 4 = [60, 72, 75, 80]"
    apply (subst sort_loop.simps, simp add: shift_loop.simps)
    apply (subst sort_loop.simps, simp add: shift_loop.simps)
    apply (subst sort_loop.simps, simp add: shift_loop.simps)
    apply (subst sort_loop.simps, simp)
    done
  then have "medianBPM med4_st = 75"
    by (simp add: medianBPM_def med4_fields)
  then show ?thesis by (simp add: med4_fields)
qed

text \<open>
  C5, amended. For every non-empty BPM median window, \<^verbatim>\<open>medianBPM\<close> (the same text in
  Espbpm and in Finalpulseandbuzzer) returns the element at index \<open>bpmHistCount div 2\<close> of
  the sorted order of the occupied slots: the middle element when the occupied count is
  odd, the upper-middle element when it is even.
\<close>

theorem median_is_sorted_middle:
  "0 < bpmHistCount s \<and> bpmHistCount s \<le> length (bpmHistory s) \<longrightarrow>
     medianBPM s = sort (take (bpmHistCount s) (bpmHistory s)) ! (bpmHistCount s div 2) \<and>
     bpmHistCount s div 2 =
       (if even (bpmHistCount s) then (bpmHistCount s - 1) div 2 + 1 else (bpmHistCount s - 1) div 2)"
proof (intro impI conjI)
  assume a: "0 < bpmHistCount s \<and> bpmHistCount s \<le> length (bpmHistory s)"
  then show "medianBPM s = sort (take (bpmHistCount s) (bpmHistory s)) ! (bpmHistCount s div 2)"
    by (simp add: medianBPM_sorted_middle)
  from a have "0 < bpmHistCount s" by simp
  then show "bpmHistCount s div 2 =
       (if even (bpmHistCount s) then (bpmHistCount s - 1) div 2 + 1 else (bpmHistCount s - 1) div 2)"
    by (cases "bpmHistCount s") (auto elim!: evenE oddE)
qed

theorem median_is_sorted_middle_witness:
  "0 < bpmHistCount med5_st \<and> bpmHistCount med5_st \<le> length (bpmHistory med5_st) \<and>
   medianBPM med5_st = 72 \<and> sort (take 5 (bpmHistory med5_st)) = [60, 66, 72, 75, 80] \<and>
   0 < bpmHistCount med4_st \<and> bpmHistCount med4_st \<le> length (bpmHistory med4_st) \<and>
   medianBPM med4_st = [60, 72, 75, 80] ! 2"
  using median_is_sorted_middle [of med5_st] median_is_sorted_middle [of med4_st]
  by (simp add: med4_fields med5_fields)

section \<open>The rings (claim C7)\<close>

lemma init_rings:
  "beat_ring init_state = ([0, 0, 0, 0, 0, 0, 0, 0, 0, 0, 0, 0, 0, 0, 0, 0], 0, 0)"
  "hist_ring init_state = ([0, 0, 0, 0, 0], 0, 0)"
  "avg_ring init_state = ([0, 0, 0, 0, 0, 0, 0, 0], 0, 0)"
  by (simp_all add: init_state_def beat_ring_def hist_ring_def avg_ring_def)

lemma ring_prefix_view:
  assumes "0 < cap" and "length arr = cap" and "length xs \<le> cap"
  shows "snd (snd (fold (ring_push cap) xs (arr, 0, 0))) = length xs \<and>
         take (length xs) (fst (fold (ring_push cap) xs (arr, 0, 0))) = xs"
  using ring_fold_prefix [OF assms] by auto

lemma rings_ok_run:
  "ring_ok 16 (beat_ring (snd (run is init_state))) \<and> ring_ok 5 (hist_ring (snd (run is init_state))) \<and>
   ring_ok 8 (avg_ring (snd (run is init_state)))"
  using rate_inv_run [OF rate_inv_init, of "is"] by (simp add: rate_inv_def)

text \<open>
  C7. For the interval ring (capacity 16), the median window (5) and the average window
  (8) of Espbpm:
  \<^item> pushing capacity + 1 values into the ring of the initial state leaves the count at
    the capacity, the cursor at 1, the newest value in slot 0 and the values pushed
    second to last-but-one in the slots after it: exactly the capacity most recent values;
  \<^item> while not more than capacity values have been pushed, the count is their number and
    the slots below the count hold them in order, so every slot below the count has been
    written;
  \<^item> a push keeps the cursor below the capacity and the count at most the capacity, and
    both hold in every state of every run from the initial state;
  \<^item> \<^verbatim>\<open>computeBPM\<close>, \<^verbatim>\<open>medianBPM\<close> and \<^verbatim>\<open>avgBPM\<close> depend on the slots below the count
    only.
\<close>

theorem ring_wraparound:
  "(length xs = 17 \<longrightarrow>
      beat_ring (fold pushBeatInterval xs init_state) = (xs ! 16 # take 15 (tl xs), 1, 16)) \<and>
   (length ys = 6 \<longrightarrow>
      hist_ring (fold pushBPMHistory ys init_state) = (ys ! 5 # take 4 (tl ys), 1, 5)) \<and>
   (length zs = 9 \<longrightarrow>
      avg_ring (fold pushBPMAvg zs init_state) = (zs ! 8 # take 7 (tl zs), 1, 8)) \<and>
   (length xs' \<le> 16 \<longrightarrow>
      beatCount (fold pushBeatInterval xs' init_state) = length xs' \<and>
      take (length xs') (beatIntervals (fold pushBeatInterval xs' init_state)) = xs') \<and>
   (length ys' \<le> 5 \<longrightarrow>
      bpmHistCount (fold pushBPMHistory ys' init_state) = length ys' \<and>
      take (length ys') (bpmHistory (fold pushBPMHistory ys' init_state)) = ys') \<and>
   (length zs' \<le> 8 \<longrightarrow>
      bpmAvgCount (fold pushBPMAvg zs' init_state) = length zs' \<and>
      take (length zs') (bpmAvgWindow (fold pushBPMAvg zs' init_state)) = zs') \<and>
   (beatIndex s < 16 \<and> beatCount s \<le> 16 \<longrightarrow>
      beatIndex (pushBeatInterval v s) < 16 \<and> beatCount (pushBeatInterval v s) \<le> 16) \<and>
   (bpmHistIdx s < 5 \<and> bpmHistCount s \<le> 5 \<longrightarrow>
      bpmHistIdx (pushBPMHistory v s) < 5 \<and> bpmHistCount (pushBPMHistory v s) \<le> 5) \<and>
   (bpmAvgIdx s < 8 \<and> bpmAvgCount s \<le> 8 \<longrightarrow>
      bpmAvgIdx (pushBPMAvg v s) < 8 \<and> bpmAvgCount (pushBPMAvg v s) \<le> 8) \<and>
   ring_ok 16 (beat_ring (snd (run ps init_state))) \<and>
   ring_ok 5 (hist_ring (snd (run ps init_state))) \<and>
   ring_ok 8 (avg_ring (snd (run ps init_state))) \<and>
   (beatCount s' = beatCount s \<and>
    take (beatCount s) (beatIntervals s') = take (beatCount s) (beatIntervals s) \<longrightarrow>
      computeBPM s' = computeBPM s) \<and>
   (bpmHistCount s' = bpmHistCount s \<and>
    take (bpmHistCount s) (bpmHistory s') = take (bpmHistCount s) (bpmHistory s) \<longrightarrow>
      medianBPM s' = medianBPM s) \<and>
   (bpmAvgCount s' = bpmAvgCount s \<and>
    take (bpmAvgCount s) (bpmAvgWindow s') = take (bpmAvgCount s) (bpmAvgWindow s) \<longrightarrow>
      avgBPM s' = avgBPM s)"
proof -
  have w1: "beat_ring (fold pushBeatInterval xs init_state) = (xs ! 16 # take 15 (tl xs), 1, 16)"
    if "length xs = 17"
    using ring_fold_wrap [of 16 "fst (beat_ring init_state)" xs] that
    by (simp add: beat_ring_fold init_rings)
  have w2: "hist_ring (fold pushBPMHistory ys init_state) = (ys ! 5 # take 4 (tl ys), 1, 5)"
    if "length ys = 6"
    using ring_fold_wrap [of 5 "fst (hist_ring init_state)" ys] that
    by (simp add: hist_ring_fold init_rings)
  have w3: "avg_ring (fold pushBPMAvg zs init_state) = (zs ! 8 # take 7 (tl zs), 1, 8)"
    if "length zs = 9"
    using ring_fold_wrap [of 8 "fst (avg_ring init_state)" zs] that
    by (simp add: avg_ring_fold init_rings)
  have p1: "beatCount (fold pushBeatInterval xs' init_state) = length xs' \<and>
      take (length xs') (beatIntervals (fold pushBeatInterval xs' init_state)) = xs'"
    if "length xs' \<le> 16"
  proof -
    have "beatCount t = snd (snd (beat_ring t))" "beatIntervals t = fst (beat_ring t)" for t
      by (simp_all add: beat_ring_def)
    then show ?thesis
      using ring_prefix_view [of 16 "[0, 0, 0, 0, 0, 0, 0, 0, 0, 0, 0, 0, 0, 0, 0, 0]" xs'] that
      by (simp add: beat_ring_fold init_rings)
  qed
  have p2: "bpmHistCount (fold pushBPMHistory ys' init_state) = length ys' \<and>
      take (length ys') (bpmHistory (fold pushBPMHistory ys' init_state)) = ys'"
    if "length ys' \<le> 5"
  proof -
    have "bpmHistCount t = snd (snd (hist_ring t))" "bpmHistory t = fst (hist_ring t)" for t
      by (simp_all add: hist_ring_def)
    then show ?thesis
      using ring_prefix_view [of 5 "[0, 0, 0, 0, 0]" ys'] that
      by (simp add: hist_ring_fold init_rings)
  qed
  have p3: "bpmAvgCount (fold pushBPMAvg zs' init_state) = length zs' \<and>
      take (length zs') (bpmAvgWindow (fold pushBPMAvg zs' init_state)) = zs'"
    if "length zs' \<le> 8"
  proof -
    have "bpmAvgCount t = snd (snd (avg_ring t))" "bpmAvgWindow t = fst (avg_ring t)" for t
      by (simp_all add: avg_ring_def)
    then show ?thesis
      using ring_prefix_view [of 8 "[0, 0, 0, 0, 0, 0, 0, 0]" zs'] that
      by (simp add: avg_ring_fold init_rings)
  qed
  have r1: "beatIndex (pushBeatInterval v s) < 16 \<and> beatCount (pushBeatInterval v s) \<le> 16"
    if "beatIndex s < 16 \<and> beatCount s \<le> 16"
    using that by (simp add: pushBeatInterval_def Let_def)
  have r2: "bpmHistIdx (pushBPMHistory v s) < 5 \<and> bpmHistCount (pushBPMHistory v s) \<le> 5"
    if "bpmHistIdx s < 5 \<and> bpmHistCount s \<le> 5"
    using that by (simp add: pushBPMHistory_def Let_def)
  have r3: "bpmAvgIdx (pushBPMAvg v s) < 8 \<and> bpmAvgCount (pushBPMAvg v s) \<le> 8"
    if "bpmAvgIdx s < 8 \<and> bpmAvgCount s \<le> 8"
    using that by (simp add: pushBPMAvg_def Let_def)
  from w1 w2 w3 p1 p2 p3 r1 r2 r3 rings_ok_run [of ps]
    computeBPM_reads [of s' s] medianBPM_reads [of s' s] avgBPM_reads [of s' s]
  show ?thesis by blast
qed

theorem ring_wraparound_witness:
  "beat_ring (fold pushBeatInterval
      [301, 302, 303, 304, 305, 306, 307, 308, 309, 310, 311, 312, 313, 314, 315, 316, 317] init_state) =
     ([317, 302, 303, 304, 305, 306, 307, 308, 309, 310, 311, 312, 313, 314, 315, 316], 1, 16) \<and>
   hist_ring (fold pushBPMHistory [61, 62, 63, 64, 65, 66] init_state) = ([66, 62, 63, 64, 65], 1, 5) \<and>
   avg_ring (fold pushBPMAvg [71, 72, 73, 74, 75, 76, 77, 78, 79] init_state) =
     ([79, 72, 73, 74, 75, 76, 77, 78], 1, 8) \<and>
   beatCount (fold pushBeatInterval [900, 950] init_state) = 2 \<and>
   take 2 (beatIntervals (fold pushBeatInterval [900, 950] init_state)) = [900, 950] \<and>
   bpmHistCount (fold pushBPMHistory [60, 80, 70] init_state) = 3 \<and>
   take 3 (bpmHistory (fold pushBPMHistory [60, 80, 70] init_state)) = [60, 80, 70] \<and>
   bpmAvgCount (fold pushBPMAvg [60] init_state) = 1 \<and>
   take 1 (bpmAvgWindow (fold pushBPMAvg [60] init_state)) = [60] \<and>
   beatIndex (pushBeatInterval 1000 st4) < 16 \<and> beatCount (pushBeatInterval 1000 st4) \<le> 16 \<and>
   bpmHistIdx (pushBPMHistory 60 st4) < 5 \<and> bpmHistCount (pushBPMHistory 60 st4) \<le> 5 \<and>
   bpmAvgIdx (pushBPMAvg 60 st4) < 8 \<and> bpmAvgCount (pushBPMAvg 60 st4) \<le> 8 \<and>
   computeBPM (st4\<lparr>beatIntervals := [1000, 7, 7, 7, 7, 7, 7, 7, 7, 7, 7, 7, 7, 7, 7, 7]\<rparr>) =
     computeBPM st4 \<and>
   medianBPM (st4\<lparr>bpmHistory := [60, 7, 7, 7, 7]\<rparr>) = medianBPM st4 \<and>
   avgBPM (st4\<lparr>bpmAvgWindow := [60, 7, 7, 7, 7, 7, 7, 7]\<rparr>) = avgBPM st4"
proof -
  have f: "beatIndex st4 = 1" "beatCount st4 = 1" "bpmHistIdx st4 = 1" "bpmHistCount st4 = 1"
    "bpmAvgIdx st4 = 1" "bpmAvgCount st4 = 1"
    "beatIntervals st4 = [1000, 0, 0, 0, 0, 0, 0, 0, 0, 0, 0, 0, 0, 0, 0, 0]"
    "bpmHistory st4 = [60, 0, 0, 0, 0]" "bpmAvgWindow st4 = [60, 0, 0, 0, 0, 0, 0, 0]"
    by (simp_all add: st4_def)
  note T = ring_wraparound [where xs = "[301, 302, 303, 304, 305, 306, 307, 308, 309, 310, 311, 312, 313,
        314, 315, 316, 317]"
      and ys = "[61, 62, 63, 64, 65, 66]" and zs = "[71, 72, 73, 74, 75, 76, 77, 78, 79]"
      and xs' = "[900, 950]" and ys' = "[60, 80, 70]" and zs' = "[60]" and s = st4 and ps = "[]"
      and v = 1000
      and s' = "st4\<lparr>beatIntervals := [1000, 7, 7, 7, 7, 7, 7, 7, 7, 7, 7, 7, 7, 7, 7, 7]\<rparr>"]
  note T2 = ring_wraparound [where s = st4 and v = 60 and s' = "st4\<lparr>bpmHistory := [60, 7, 7, 7, 7]\<rparr>"]
  note T3 = ring_wraparound [where s = st4 and v = 60
      and s' = "st4\<lparr>bpmAvgWindow := [60, 7, 7, 7, 7, 7, 7, 7]\<rparr>"]
  have a1: "beat_ring (fold pushBeatInterval
      [301, 302, 303, 304, 305, 306, 307, 308, 309, 310, 311, 312, 313, 314, 315, 316, 317] init_state) =
     ([317, 302, 303, 304, 305, 306, 307, 308, 309, 310, 311, 312, 313, 314, 315, 316], 1, 16)"
    using T [THEN conjunct1] by simp
  have a2: "hist_ring (fold pushBPMHistory [61, 62, 63, 64, 65, 66] init_state) = ([66, 62, 63, 64, 65], 1, 5)"
    using T [THEN conjunct2, THEN conjunct1] by simp
  have a3: "avg_ring (fold pushBPMAvg [71, 72, 73, 74, 75, 76, 77, 78, 79] init_state) =
     ([79, 72, 73, 74, 75, 76, 77, 78], 1, 8)"
    using T [THEN conjunct2, THEN conjunct2, THEN conjunct1] by simp
  note R = T [THEN conjunct2, THEN conjunct2, THEN conjunct2]
  have a4: "beatCount (fold pushBeatInterval [900, 950] init_state) = 2 \<and>
   take 2 (beatIntervals (fold pushBeatInterval [900, 950] init_state)) = [900, 950]"
    using R [THEN conjunct1] by (simp add: numeral_2_eq_2)
  have a5: "bpmHistCount (fold pushBPMHistory [60, 80, 70] init_state) = 3 \<and>
   take 3 (bpmHistory (fold pushBPMHistory [60, 80, 70] init_state)) = [60, 80, 70]"
    using R [THEN conjunct2, THEN conjunct1] by (simp add: numeral_3_eq_3)
  have a6: "bpmAvgCount (fold pushBPMAvg [60] init_state) = 1 \<and>
   take 1 (bpmAvgWindow (fold pushBPMAvg [60] init_state)) = [60]"
    using R [THEN conjunct2, THEN conjunct2, THEN conjunct1] by simp
  note c6 = conjunct2 [THEN conjunct2, THEN conjunct2, THEN conjunct2, THEN conjunct2, THEN conjunct2]
  note c12 = c6 [THEN c6]
  have a7: "beatIndex (pushBeatInterval 1000 st4) < 16 \<and> beatCount (pushBeatInterval 1000 st4) \<le> 16"
    using T [THEN c6, THEN conjunct1] by (simp add: f)
  have a8: "bpmHistIdx (pushBPMHistory 60 st4) < 5 \<and> bpmHistCount (pushBPMHistory 60 st4) \<le> 5"
    using T2 [THEN c6, THEN conjunct2, THEN conjunct1] by (simp add: f)
  have a9: "bpmAvgIdx (pushBPMAvg 60 st4) < 8 \<and> bpmAvgCount (pushBPMAvg 60 st4) \<le> 8"
    using T3 [THEN c6, THEN conjunct2, THEN conjunct2, THEN conjunct1] by (simp add: f)
  have b1: "computeBPM (st4\<lparr>beatIntervals := [1000, 7, 7, 7, 7, 7, 7, 7, 7, 7, 7, 7, 7, 7, 7, 7]\<rparr>) =
     computeBPM st4"
    using T [THEN c12, THEN conjunct1] by (simp add: f)
  have b2: "medianBPM (st4\<lparr>bpmHistory := [60, 7, 7, 7, 7]\<rparr>) = medianBPM st4"
    using T2 [THEN c12, THEN conjunct2, THEN conjunct1] by (simp add: f)
  have b3: "avgBPM (st4\<lparr>bpmAvgWindow := [60, 7, 7, 7, 7, 7, 7, 7]\<rparr>) = avgBPM st4"
    using T3 [THEN c12, THEN conjunct2, THEN conjunct2] by (simp add: f)
  from a1 a2 a3 a4 a5 a6 a7 a8 a9 b1 b2 b3 show ?thesis by blast
qed

end
